theory Spec2Isabelle
  imports Main
begin

section \<open>Characters and C strings\<close>

text \<open>
  A \<^typ>\<open>char\<close> is one byte. A C string is the byte list in front of its terminating
  NUL: reading at the length of the list (or beyond) gives the terminator. The character
  classes are those of \<^verbatim>\<open>ctype.h\<close> in the "C" locale.
\<close>

definition NUL :: char where
  "NUL = CHR 0x00"

definition char_at :: "string \<Rightarrow> nat \<Rightarrow> char" where
  "char_at str i = (if i < length str then str ! i else NUL)"

definition isdigit :: "char \<Rightarrow> bool" where
  "isdigit c = (48 \<le> (of_char c :: nat) \<and> (of_char c :: nat) \<le> 57)"

definition isblank :: "char \<Rightarrow> bool" where
  "isblank c = (c = CHR '' '' \<or> c = CHR 0x09)"

definition isspace :: "char \<Rightarrow> bool" where
  "isspace c = (c = CHR '' '' \<or> (9 \<le> (of_char c :: nat) \<and> (of_char c :: nat) \<le> 13))"

section \<open>The host's strings\<close>

text \<open>
  An element of an R character vector is either the missing-value marker or a CHARSXP
  holding bytes. \<open>CHAR_str\<close> is the byte pointer \<open>CHAR(s)\<close> of the element (the marker itself prints
  as the two bytes \<open>NA\<close>), \<open>LENGTH_chr\<close> its byte count, and \<open>mkChar\<close> builds an
  element from a C string, that is from the bytes in front of the first NUL.
\<close>

datatype charsxp = NA_STRING | CHARSXP string

fun CHAR_str :: "charsxp \<Rightarrow> string" where
  "CHAR_str NA_STRING = ''NA''"
| "CHAR_str (CHARSXP bytes) = bytes"

definition LENGTH_chr :: "charsxp \<Rightarrow> nat" where
  "LENGTH_chr s = length (CHAR_str s)"

definition mkChar :: "string \<Rightarrow> charsxp" where
  "mkChar buf = CHARSXP (takeWhile (\<lambda>c. c \<noteq> NUL) buf)"

section \<open>safe_strexplode\<close>

text \<open>
  The argument is the first element \<open>STRING_ELT(s, 0)\<close> of the character vector. The loop
  over \<open>i < s0_length\<close> stores \<open>CHAR(s0)[i]\<close> in \<open>buf[0]\<close>, with \<open>buf[1] = 0\<close>, and
  sets element \<open>i\<close> of the answer to \<open>mkChar(buf)\<close>.
\<close>

fun strexplode_loop :: "string \<Rightarrow> nat \<Rightarrow> nat \<Rightarrow> charsxp list \<Rightarrow> charsxp list" where
  "strexplode_loop bytes i 0 ans = ans"
| "strexplode_loop bytes i (Suc todo) ans =
     strexplode_loop bytes (i + 1) todo (ans[i := mkChar [bytes ! i, NUL]])"

definition safe_strexplode :: "charsxp \<Rightarrow> charsxp list" where
  "safe_strexplode s0 =
     (let s0_length = LENGTH_chr s0
      in strexplode_loop (CHAR_str s0) 0 s0_length (replicate s0_length (CHARSXP [])))"

section \<open>The integer buffer\<close>

text \<open>
  The struct of \<^verbatim>\<open>IRanges_defines.h\<close> (declared there under its older name
  \<open>IntBuf\<close>): \<open>buflength\<close> cells are allocated in \<open>elts\<close>, of which the first
  \<open>nelt\<close> are in use. The cells behind them keep whatever was stored there before.
\<close>

record IntAE =
  buflength :: nat
  elts :: "int list"
  nelt :: nat

definition IntAE_ok :: "IntAE \<Rightarrow> bool" where
  "IntAE_ok ae = (buflength ae = length (elts ae) \<and> nelt ae \<le> buflength ae)"

text \<open>
  Modelled from the spec: \<open>_new_IntAE\<close> is not part of the sources at hand. The spec
  has a buffer created empty or with a hinted capacity; the arguments are the capacity,
  the number of elements and their value. Cells that were never written hold 0 here.
\<close>

definition new_IntAE :: "nat \<Rightarrow> nat \<Rightarrow> int \<Rightarrow> IntAE" where
  "new_IntAE buflength0 nelt0 val =
     \<lparr>buflength = buflength0,
      elts = replicate nelt0 val @ replicate (buflength0 - nelt0) 0,
      nelt = nelt0\<rparr>"

text \<open>
  Modelled from the spec: the growth of the capacity is not part of the sources at hand.
  The spec asks for geometric growth, such as doubling with a minimum increment, that
  neither loses nor reorders the elements.
\<close>

definition get_new_buflength :: "nat \<Rightarrow> nat" where
  "get_new_buflength n = (if n = 0 then 1 else 2 * n)"

definition IntAE_extend :: "IntAE \<Rightarrow> IntAE" where
  "IntAE_extend ae =
     (let new_buflength = get_new_buflength (buflength ae)
      in ae\<lparr>buflength := new_buflength,
            elts := elts ae @ replicate (new_buflength - buflength ae) 0\<rparr>)"

text \<open>
  Modelled from the spec: \<open>_IntAE_insert_at\<close> is not part of the sources at hand. The
  spec's \<open>append\<close> grows the capacity first when the buffer is full, then stores the
  value at the current end and increases the length by one; at a position in front of
  the end the elements from there on move up by one.
\<close>

definition IntAE_insert_at :: "IntAE \<Rightarrow> nat \<Rightarrow> int \<Rightarrow> IntAE" where
  "IntAE_insert_at ae at val =
     (let ae1 = (if nelt ae \<ge> buflength ae then IntAE_extend ae else ae)
      in ae1\<lparr>elts := take at (elts ae1) @ [val] @ drop at (take (nelt ae1) (elts ae1))
                       @ drop (nelt ae1 + 1) (elts ae1),
             nelt := nelt ae1 + 1\<rparr>)"

text \<open>
  Modelled from the spec: \<open>_IntAE_asINTEGER\<close> is not part of the sources at hand. The
  spec's \<open>to_sequence\<close> copies out the first \<open>nelt\<close> elements.
\<close>

definition IntAE_asINTEGER :: "IntAE \<Rightarrow> int list" where
  "IntAE_asINTEGER ae = take (nelt ae) (elts ae)"

section \<open>Scanning one integer\<close>

text \<open>
  \<open>long int\<close> has 64 bits (the LP64 data model) and \<open>int\<close> 32. The conversion
  \<^verbatim>\<open>sscanf(str + offset, "%ld%n", &val, &n)\<close> skips white space, reads an optional
  sign and then the longest run of decimal digits; without a digit nothing is converted
  and the call does not return 1 (\<open>None\<close>). Otherwise \<open>val\<close> is the value, which the C
  library clamps to the range of \<open>long int\<close> as \<open>strtol\<close> does, and \<open>n\<close> counts the
  consumed characters, white space included.
\<close>

definition INT_MIN :: int where "INT_MIN = - (2 ^ 31)"
definition INT_MAX :: int where "INT_MAX = 2 ^ 31 - 1"
definition LONG_MIN :: int where "LONG_MIN = - (2 ^ 63)"
definition LONG_MAX :: int where "LONG_MAX = 2 ^ 63 - 1"

definition long_clamp :: "int \<Rightarrow> int" where
  "long_clamp v = (if v < LONG_MIN then LONG_MIN else if v > LONG_MAX then LONG_MAX else v)"

text \<open>The cast \<open>(int) val\<close> keeps the low 32 bits, read in two's complement.\<close>

definition int_cast :: "int \<Rightarrow> int" where
  "int_cast v = (v + 2 ^ 31) mod 2 ^ 32 - 2 ^ 31"

definition digit_val :: "char \<Rightarrow> int" where
  "digit_val c = int (of_char c) - 48"

definition digits_value :: "string \<Rightarrow> int" where
  "digits_value ds = foldl (\<lambda>a d. 10 * a + digit_val d) 0 ds"

definition sign_length :: "string \<Rightarrow> nat" where
  "sign_length inp =
     (case inp of [] \<Rightarrow> 0 | c # _ \<Rightarrow> if c = CHR ''+'' \<or> c = CHR ''-'' then 1 else 0)"

definition is_negative :: "string \<Rightarrow> bool" where
  "is_negative inp = (case inp of [] \<Rightarrow> False | c # _ \<Rightarrow> c = CHR ''-'')"

text \<open>
  \<open>scan_token\<close> gives the mathematical value of the token at the front of the input and
  the number of characters up to its end; \<open>sscanf_ld\<close> is what the call stores.
\<close>

definition scan_token :: "string \<Rightarrow> (int \<times> nat) option" where
  "scan_token inp =
     (let ws = takeWhile isspace inp;
          r1 = dropWhile isspace inp;
          sg = sign_length r1;
          ds = takeWhile isdigit (drop sg r1)
      in if ds = [] then None
         else Some (if is_negative r1 then - digits_value ds else digits_value ds,
                    length ws + sg + length ds))"

definition sscanf_ld :: "string \<Rightarrow> (int \<times> nat) option" where
  "sscanf_ld inp = map_option (\<lambda>(v, n). (long_clamp v, n)) (scan_token inp)"

section \<open>Parsing one element\<close>

text \<open>
  The message left in \<open>errmsg_buf\<close> when \<open>explode_string_as_integer_vector\<close> returns
  \<open>R_NilValue\<close>: its kind and the character position it prints.
\<close>

datatype parse_error =
    TokenExpected nat
  | OutOfRange nat
  | SeparatorExpected nat

function skip_blanks :: "string \<Rightarrow> nat \<Rightarrow> nat" where
  "skip_blanks str offset =
     (if isblank (char_at str offset) then skip_blanks str (offset + 1) else offset)"
  by pat_completeness auto
termination
  by (relation "measure (\<lambda>(str, offset). length str - offset)")
     (auto simp: char_at_def isblank_def NUL_def split: if_splits)

declare skip_blanks.simps [simp del]

lemma skip_blanks_ge: "offset \<le> skip_blanks str offset"
proof (induction str offset rule: skip_blanks.induct)
  case (1 str offset)
  show ?case
  proof (cases "isblank (char_at str offset)")
    case True
    with "1" have "offset + 1 \<le> skip_blanks str (offset + 1)" by simp
    with True show ?thesis by (subst skip_blanks.simps) simp
  next
    case False
    then show ?thesis by (subst skip_blanks.simps) simp
  qed
qed

text \<open>
  The \<open>while (str[offset])\<close> loop, with the static buffer \<open>int_ae_buf\<close> passed in and
  handed back. The result is the integer vector, or the message left in \<open>errmsg_buf\<close>
  when \<open>R_NilValue\<close> is returned. Offsets are natural numbers: an element of a character
  vector has fewer than \<open>2 ^ 31\<close> bytes, so the \<open>int\<close> arithmetic on them does not
  overflow. The calls that protect values from the host's garbage collector have no
  part in the result and are left out.
\<close>

function explode_loop ::
  "string \<Rightarrow> char \<Rightarrow> nat \<Rightarrow> IntAE \<Rightarrow> (parse_error + int list) \<times> IntAE" where
  "explode_loop str sep0 offset ae =
     (if char_at str offset = NUL then (Inr (IntAE_asINTEGER ae), ae)
      else case sscanf_ld (drop offset str) of
        None \<Rightarrow> (Inl (TokenExpected (offset + 1)), ae)
      | Some (val, n) \<Rightarrow>
          let offset1 = skip_blanks str (offset + n)
          in if val < INT_MIN \<or> val > INT_MAX
             then (Inl (OutOfRange (offset1 + 1)), ae)
             else let ae1 = IntAE_insert_at ae (nelt ae) (int_cast val)
                  in if char_at str offset1 = NUL then (Inr (IntAE_asINTEGER ae1), ae1)
                     else if char_at str offset1 \<noteq> sep0
                     then (Inl (SeparatorExpected (offset1 + 1)), ae1)
                     else explode_loop str sep0 (offset1 + 1) ae1)"
  by pat_completeness auto
termination
proof (relation "measure (\<lambda>(str, sep0, offset, ae). length str - offset)", goal_cases)
  case 1
  show ?case by simp
next
  case (2 str sep0 offset ae x2 val n offset1 ae1)
  have "offset \<le> offset + n" by simp
  also have "\<dots> \<le> skip_blanks str (offset + n)" by (rule skip_blanks_ge)
  finally have "offset \<le> offset1" using 2 by simp
  moreover have "offset1 < length str"
  proof (rule ccontr)
    assume "\<not> offset1 < length str"
    then have "char_at str offset1 = NUL" by (simp add: char_at_def)
    with 2 show False by simp
  qed
  ultimately show ?case by simp
qed

declare explode_loop.simps [simp del]

definition explode_string_as_integer_vector ::
  "IntAE \<Rightarrow> charsxp \<Rightarrow> char \<Rightarrow> (parse_error + int list) \<times> IntAE" where
  "explode_string_as_integer_vector int_ae_buf s sep0 =
     explode_loop (CHAR_str s) sep0 0 (int_ae_buf\<lparr>nelt := 0\<rparr>)"

section \<open>strsplit_as_list_of_ints\<close>

text \<open>
  The errors raised by the entry point. \<open>error_message\<close> is the text handed to the
  host's \<open>error\<close>, with \<open>show_nat\<close> for \<^verbatim>\<open>%d\<close>.
\<close>

datatype call_error =
    InvalidSeparator
  | MissingInput
  | InListElement nat parse_error

definition digit_char :: "nat \<Rightarrow> char" where
  "digit_char d = char_of (48 + d)"

fun show_nat :: "nat \<Rightarrow> string" where
  "show_nat n = (if n < 10 then [digit_char n] else show_nat (n div 10) @ [digit_char (n mod 10)])"

declare show_nat.simps [simp del]

fun errmsg :: "parse_error \<Rightarrow> string" where
  "errmsg (TokenExpected n) = ''decimal integer expected at char '' @ show_nat n"
| "errmsg (OutOfRange n) = ''out of range integer at char '' @ show_nat n"
| "errmsg (SeparatorExpected n) = ''separator expected at char '' @ show_nat n"

fun error_message :: "call_error \<Rightarrow> string" where
  "error_message InvalidSeparator = [CHR 0x27] @ ''sep'' @ [CHR 0x27] @ '' cannot be a digit, ''
      @ [CHR 0x22] @ ''+'' @ [CHR 0x22] @ '' or '' @ [CHR 0x22] @ ''-'' @ [CHR 0x22]"
| "error_message MissingInput = [CHR 0x27] @ ''x'' @ [CHR 0x27] @ '' contains NAs''"
| "error_message (InListElement i e) = ''in list element '' @ show_nat i @ '': '' @ errmsg e"

text \<open>
  The loop over the elements of \<open>x\<close>: \<open>i\<close> counts the elements done, the answers are
  collected in order, and the first error ends the call.
\<close>

fun strsplit_loop ::
  "charsxp list \<Rightarrow> nat \<Rightarrow> char \<Rightarrow> IntAE \<Rightarrow> call_error + int list list" where
  "strsplit_loop [] i sep0 int_ae_buf = Inr []"
| "strsplit_loop (x_elt # rest) i sep0 int_ae_buf =
     (if x_elt = NA_STRING then Inl MissingInput
      else case explode_string_as_integer_vector int_ae_buf x_elt sep0 of
        (Inl e, ae') \<Rightarrow> Inl (InListElement (i + 1) e)
      | (Inr ans_elt, ae') \<Rightarrow>
          (case strsplit_loop rest (i + 1) sep0 ae' of
             Inl e \<Rightarrow> Inl e
           | Inr ans \<Rightarrow> Inr (ans_elt # ans)))"

text \<open>The second argument is the first element \<open>STRING_ELT(sep, 0)\<close> of \<open>sep\<close>.\<close>

definition strsplit_as_list_of_ints :: "charsxp list \<Rightarrow> charsxp \<Rightarrow> call_error + int list list" where
  "strsplit_as_list_of_ints x sep =
     (let sep0 = char_at (CHAR_str sep) 0
      in if isdigit sep0 \<or> sep0 = CHR ''+'' \<or> sep0 = CHR ''-''
         then Inl InvalidSeparator
         else strsplit_loop x 0 sep0 (new_IntAE 0 0 0))"

section \<open>Notions of the specification\<close>

text \<open>
  The range of a 32-bit signed integer, and the separators the entry point accepts. A
  separator is \<open>good\<close> when it is accepted and is neither a blank nor the terminator.
\<close>

definition in_int_range :: "int \<Rightarrow> bool" where
  "in_int_range v = (INT_MIN \<le> v \<and> v \<le> INT_MAX)"

definition valid_sep :: "char \<Rightarrow> bool" where
  "valid_sep c = (\<not> (isdigit c \<or> c = CHR ''+'' \<or> c = CHR ''-''))"

definition good_sep :: "char \<Rightarrow> bool" where
  "good_sep c = (valid_sep c \<and> \<not> isblank c \<and> c \<noteq> NUL)"

text \<open>
  A token is an optional sign followed by one or more decimal digits. An item is a token
  as it may stand in an input string: white space in front of it and blanks behind it.
  An item fits when its value is a 32-bit signed integer.
\<close>

definition is_sign :: "string \<Rightarrow> bool" where
  "is_sign sg = (sg = [] \<or> sg = ''+'' \<or> sg = ''-'')"

datatype item = Item (lead: string) (sgn: string) (digs: string) (trail: string)

definition item_ok :: "item \<Rightarrow> bool" where
  "item_ok it = (list_all isspace (lead it) \<and> is_sign (sgn it) \<and> digs it \<noteq> [] \<and>
                 list_all isdigit (digs it) \<and> list_all isblank (trail it))"

definition item_text :: "item \<Rightarrow> string" where
  "item_text it = lead it @ sgn it @ digs it @ trail it"

definition item_value :: "item \<Rightarrow> int" where
  "item_value it = (if sgn it = ''-'' then - digits_value (digs it) else digits_value (digs it))"

definition item_fits :: "item \<Rightarrow> bool" where
  "item_fits it = (item_ok it \<and> in_int_range (item_value it))"

text \<open>
  An item ends where the blanks behind its token end: what follows it is not a blank,
  and not a digit when no blank stands behind the token.
\<close>

definition item_ends :: "item \<Rightarrow> string \<Rightarrow> bool" where
  "item_ends it after =
     (after = [] \<or> (\<not> isblank (hd after) \<and> (trail it \<noteq> [] \<or> \<not> isdigit (hd after))))"

text \<open>
  The items of a list, each followed by the separator. A separator is only ever consumed
  behind a token and its blanks, so a list that is not empty needs a good separator.
\<close>

definition items_text :: "char \<Rightarrow> item list \<Rightarrow> string" where
  "items_text c items = concat (map (\<lambda>it. item_text it @ [c]) items)"

definition items_fit :: "char \<Rightarrow> item list \<Rightarrow> bool" where
  "items_fit c items = (list_all item_fits items \<and> (items = [] \<or> good_sep c))"

text \<open>
  A line is a string of items: all but the last followed by the separator.
\<close>

type_synonym line = "item list \<times> item"

definition line_text :: "char \<Rightarrow> line \<Rightarrow> string" where
  "line_text c l = items_text c (fst l) @ item_text (snd l)"

definition line_values :: "line \<Rightarrow> int list" where
  "line_values l = map item_value (fst l @ [snd l])"

definition line_fits :: "char \<Rightarrow> line \<Rightarrow> bool" where
  "line_fits c l = (items_fit c (fst l) \<and> item_fits (snd l))"

text \<open>
  A token is at the front of a string when, after white space, the string starts with a
  digit, or with a sign and then a digit.
\<close>

definition token_at_front :: "string \<Rightarrow> bool" where
  "token_at_front s =
     (case dropWhile isspace s of
        [] \<Rightarrow> False
      | ch # r \<Rightarrow> isdigit ch \<or> ((ch = CHR ''+'' \<or> ch = CHR ''-'') \<and> r \<noteq> [] \<and> isdigit (hd r)))"

text \<open>
  The parse of one element on its own, with a buffer of its own, and the elements of
  a batch that parse.
\<close>

definition parse_elt :: "charsxp \<Rightarrow> char \<Rightarrow> parse_error + int list" where
  "parse_elt s sep0 = fst (explode_string_as_integer_vector (new_IntAE 0 0 0) s sep0)"

definition elt_valid :: "char \<Rightarrow> charsxp \<Rightarrow> bool" where
  "elt_valid sep0 s = (s \<noteq> NA_STRING \<and> \<not> isl (parse_elt s sep0))"

text \<open>
  Joining strings with a separator character; the decimal representation of a
  non-negative integer is \<open>show_nat\<close>.
\<close>

fun join :: "char \<Rightarrow> string list \<Rightarrow> string" where
  "join c [] = []"
| "join c [s] = s"
| "join c (s # t # ss) = s @ c # join c (t # ss)"

definition plain_item :: "nat \<Rightarrow> item" where
  "plain_item v = Item [] [] (show_nat v) []"

section \<open>Auxiliary facts\<close>

lemma isblank_isspace: "isblank c \<Longrightarrow> isspace c"
  by (auto simp: isblank_def isspace_def)

lemma isdigit_not_isspace: "isdigit c \<Longrightarrow> \<not> isspace c"
  by (auto simp: isdigit_def isspace_def)

lemma sign_not_isspace: "\<not> isspace CHR ''+''" "\<not> isspace CHR ''-''"
  by (simp_all add: isspace_def)

lemma sign_not_isdigit: "\<not> isdigit CHR ''+''" "\<not> isdigit CHR ''-''"
  by (simp_all add: isdigit_def)

lemma NUL_class: "\<not> isdigit NUL" "\<not> isspace NUL" "\<not> isblank NUL"
  by (simp_all add: isdigit_def isspace_def isblank_def NUL_def)

lemma takeWhile_all_then_stop:
  "list_all P xs \<Longrightarrow> ys = [] \<or> \<not> P (hd ys) \<Longrightarrow> takeWhile P (xs @ ys) = xs"
  by (cases ys) (auto simp: list_all_iff)

lemma dropWhile_all_then_stop:
  "list_all P xs \<Longrightarrow> ys = [] \<or> \<not> P (hd ys) \<Longrightarrow> dropWhile P (xs @ ys) = ys"
  by (cases ys) (auto simp: list_all_iff)

lemma scan_token_shape:
  assumes ws: "list_all isspace ws" and sg: "is_sign sg"
    and ds: "ds \<noteq> []" "list_all isdigit ds"
    and tl: "tail = [] \<or> \<not> isdigit (hd tail)"
  shows "scan_token (ws @ sg @ ds @ tail) =
    Some (if sg = ''-'' then - digits_value ds else digits_value ds,
          length ws + length sg + length ds)"
proof -
  obtain d ds' where dsc: "ds = d # ds'" using ds(1) by (cases ds) auto
  have d: "isdigit d" using ds(2) dsc by simp
  have stop: "sg @ ds @ tail = [] \<or> \<not> isspace (hd (sg @ ds @ tail))"
    using sg d dsc by (auto simp: is_sign_def isdigit_not_isspace sign_not_isspace)
  have tw: "takeWhile isspace (ws @ sg @ ds @ tail) = ws"
    using ws stop by (rule takeWhile_all_then_stop)
  have dw: "dropWhile isspace (ws @ sg @ ds @ tail) = sg @ ds @ tail"
    using ws stop by (rule dropWhile_all_then_stop)
  have d_nosign: "d \<noteq> CHR ''+''" "d \<noteq> CHR ''-''"
    using d sign_not_isdigit by auto
  have sl: "sign_length (sg @ ds @ tail) = length sg"
    using sg dsc d_nosign by (auto simp: is_sign_def sign_length_def)
  have neg: "is_negative (sg @ ds @ tail) = (sg = ''-'')"
    using sg dsc d_nosign by (auto simp: is_sign_def is_negative_def)
  have td: "takeWhile isdigit (ds @ tail) = ds"
    using ds(2) tl by (rule takeWhile_all_then_stop)
  show ?thesis
    unfolding scan_token_def Let_def tw dw sl neg using td ds(1) by simp
qed

lemma long_clamp_in_range: "in_int_range v \<Longrightarrow> long_clamp v = v"
  by (simp add: in_int_range_def long_clamp_def INT_MIN_def INT_MAX_def LONG_MIN_def LONG_MAX_def)

lemma long_clamp_range_iff: "in_int_range (long_clamp v) = in_int_range v"
  by (simp add: in_int_range_def long_clamp_def INT_MIN_def INT_MAX_def LONG_MIN_def LONG_MAX_def)

lemma int_cast_in_range: "in_int_range v \<Longrightarrow> int_cast v = v"
  by (simp add: in_int_range_def int_cast_def INT_MIN_def INT_MAX_def)

lemma sscanf_ld_shape:
  assumes "list_all isspace ws" "is_sign sg" "ds \<noteq> []" "list_all isdigit ds"
    and "tail = [] \<or> \<not> isdigit (hd tail)"
  shows "sscanf_ld (ws @ sg @ ds @ tail) =
    Some (long_clamp (if sg = ''-'' then - digits_value ds else digits_value ds),
          length ws + length sg + length ds)"
  by (simp add: sscanf_ld_def scan_token_shape [OF assms])

lemma char_at_append_length: "char_at (a @ c # r) (length a) = c"
  by (simp add: char_at_def)

lemma char_at_end: "char_at a (length a) = NUL"
  by (simp add: char_at_def)

lemma skip_blanks_stop: "\<not> isblank (char_at str k) \<Longrightarrow> skip_blanks str k = k"
  by (subst skip_blanks.simps) simp

lemma skip_blanks_append:
  "list_all isblank bl \<Longrightarrow> r = [] \<or> \<not> isblank (hd r) \<Longrightarrow>
   skip_blanks (a @ bl @ r) (length a) = length a + length bl"
proof (induction bl arbitrary: a)
  case Nil
  have "\<not> isblank (char_at (a @ r) (length a))"
    using Nil(2) by (cases r) (auto simp: char_at_def NUL_class)
  then show ?case by (simp add: skip_blanks_stop)
next
  case (Cons b bl)
  have b: "isblank b" and bl: "list_all isblank bl" using Cons.prems(1) by simp_all
  have "skip_blanks ((a @ [b]) @ bl @ r) (length (a @ [b])) = length (a @ [b]) + length bl"
    using bl Cons.prems(2) by (rule Cons.IH)
  then have step: "skip_blanks (a @ b # bl @ r) (length a + 1) = length a + 1 + length bl"
    by simp
  have "isblank (char_at (a @ (b # bl) @ r) (length a))"
    using b by (simp add: char_at_def)
  then have "skip_blanks (a @ (b # bl) @ r) (length a) = skip_blanks (a @ (b # bl) @ r) (length a + 1)"
    by (subst skip_blanks.simps) simp
  with step show ?case by simp
qed

lemma IntAE_append_ok:
  assumes "IntAE_ok ae"
  shows "IntAE_ok (IntAE_insert_at ae (nelt ae) v)"
  using assms
  by (cases "elts ae")
     (auto simp: IntAE_ok_def IntAE_insert_at_def IntAE_extend_def get_new_buflength_def Let_def)

lemma IntAE_append_contents:
  assumes "IntAE_ok ae"
  shows "IntAE_asINTEGER (IntAE_insert_at ae (nelt ae) v) = IntAE_asINTEGER ae @ [v]"
  using assms
  by (auto simp: IntAE_ok_def IntAE_insert_at_def IntAE_extend_def get_new_buflength_def Let_def
      IntAE_asINTEGER_def)

lemma IntAE_reset_ok: "IntAE_ok ae \<Longrightarrow> IntAE_ok (ae\<lparr>nelt := 0\<rparr>)"
  by (simp add: IntAE_ok_def)

lemma IntAE_reset_contents: "IntAE_asINTEGER (ae\<lparr>nelt := 0\<rparr>) = []"
  by (simp add: IntAE_asINTEGER_def)

lemma new_IntAE_ok: "IntAE_ok (new_IntAE 0 0 0)"
  by (simp add: IntAE_ok_def new_IntAE_def)

lemma item_text_first:
  assumes "item_ok it"
  shows "item_text it \<noteq> [] \<and> hd (item_text it) \<noteq> NUL"
proof -
  obtain d ds' where dsc: "digs it = d # ds'" and d: "isdigit d"
    using assms by (cases "digs it") (auto simp: item_ok_def)
  have d0: "d \<noteq> NUL" using d NUL_class by auto
  show ?thesis
  proof (cases "lead it")
    case Nil
    with assms dsc d0 show ?thesis
      by (auto simp: item_ok_def item_text_def is_sign_def NUL_def)
  next
    case (Cons w ws)
    then have "isspace w" using assms by (simp add: item_ok_def)
    then have "w \<noteq> NUL" using NUL_class by auto
    with Cons show ?thesis by (simp add: item_text_def)
  qed
qed

lemma explode_loop_token:
  assumes ok: "item_ok it"
    and after: "item_ends it after"
  shows "explode_loop (pre @ item_text it @ after) sep0 (length pre) ae =
    (if \<not> in_int_range (item_value it)
     then (Inl (OutOfRange (length pre + length (item_text it) + 1)), ae)
     else if after = [] \<or> hd after = NUL
     then (Inr (IntAE_asINTEGER (IntAE_insert_at ae (nelt ae) (item_value it))),
           IntAE_insert_at ae (nelt ae) (item_value it))
     else if hd after \<noteq> sep0
     then (Inl (SeparatorExpected (length pre + length (item_text it) + 1)),
           IntAE_insert_at ae (nelt ae) (item_value it))
     else explode_loop (pre @ item_text it @ after) sep0
            (length pre + length (item_text it) + 1)
            (IntAE_insert_at ae (nelt ae) (item_value it)))"
proof -
  let ?str = "pre @ item_text it @ after"
  let ?k = "length pre + length (item_text it)"
  have first: "char_at ?str (length pre) \<noteq> NUL"
    using item_text_first [OF ok] by (cases "item_text it") (auto simp: char_at_def nth_append)
  have tail: "trail it @ after = [] \<or> \<not> isdigit (hd (trail it @ after))"
  proof (cases "trail it")
    case Nil
    with after show ?thesis by (auto simp: item_ends_def)
  next
    case (Cons b bl)
    then have "isblank b" using ok by (simp add: item_ok_def)
    then have "\<not> isdigit b" using isblank_isspace isdigit_not_isspace by blast
    with Cons show ?thesis by simp
  qed
  have scan: "sscanf_ld (drop (length pre) ?str) =
      Some (long_clamp (item_value it), length (lead it) + length (sgn it) + length (digs it))"
    using sscanf_ld_shape [of "lead it" "sgn it" "digs it" "trail it @ after"] ok tail
    by (simp add: item_ok_def item_text_def item_value_def)
  have stop: "after = [] \<or> \<not> isblank (hd after)"
    using after by (auto simp: item_ends_def)
  have "skip_blanks ((pre @ lead it @ sgn it @ digs it) @ trail it @ after)
          (length (pre @ lead it @ sgn it @ digs it)) =
        length (pre @ lead it @ sgn it @ digs it) + length (trail it)"
    using ok stop by (intro skip_blanks_append) (simp_all add: item_ok_def)
  then have skip: "skip_blanks ?str (length pre + (length (lead it) + length (sgn it) + length (digs it))) = ?k"
    by (simp add: item_text_def add.assoc)
  have at_k: "char_at ?str ?k = (if after = [] then NUL else hd after)"
    by (cases after) (auto simp: char_at_def nth_append)
  have rng: "(long_clamp (item_value it) < INT_MIN \<or> long_clamp (item_value it) > INT_MAX)
      = (\<not> in_int_range (item_value it))"
    using long_clamp_range_iff [of "item_value it"] by (auto simp: in_int_range_def)
  show ?thesis
  proof (cases "in_int_range (item_value it)")
    case False
    then show ?thesis
      using first scan skip rng
      by (subst explode_loop.simps) (simp add: Let_def)
  next
    case True
    then have val: "int_cast (long_clamp (item_value it)) = item_value it"
      by (simp add: long_clamp_in_range int_cast_in_range)
    show ?thesis
      using True first scan skip rng at_k val
      by (subst explode_loop.simps) (auto simp: Let_def)
  qed
qed

lemma explode_loop_at_end:
  "explode_loop str sep0 (length str) ae = (Inr (IntAE_asINTEGER ae), ae)"
  by (subst explode_loop.simps) (simp add: char_at_end)

lemma explode_loop_no_token:
  assumes "rest \<noteq> []" "hd rest \<noteq> NUL" "scan_token rest = None"
  shows "explode_loop (pre @ rest) sep0 (length pre) ae = (Inl (TokenExpected (length pre + 1)), ae)"
proof -
  have "char_at (pre @ rest) (length pre) \<noteq> NUL"
    using assms(1,2) by (cases rest) (auto simp: char_at_def)
  moreover have "sscanf_ld (drop (length pre) (pre @ rest)) = None"
    using assms(3) by (simp add: sscanf_ld_def)
  ultimately show ?thesis by (subst explode_loop.simps) simp
qed

lemma items_text_simps [simp]:
  "items_text c [] = []"
  "items_text c (it # items) = item_text it @ c # items_text c items"
  by (simp_all add: items_text_def)

lemma explode_loop_items:
  assumes "list_all item_fits items" "items = [] \<or> good_sep c" "IntAE_ok ae"
  shows "\<exists>ae'. IntAE_ok ae' \<and> IntAE_asINTEGER ae' = IntAE_asINTEGER ae @ map item_value items \<and>
     explode_loop (pre @ items_text c items @ rest) c (length pre) ae =
     explode_loop (pre @ items_text c items @ rest) c (length pre + length (items_text c items)) ae'"
  using assms
proof (induction items arbitrary: pre ae)
  case Nil
  then show ?case by auto
next
  case (Cons it items)
  let ?str = "pre @ items_text c (it # items) @ rest"
  let ?ae1 = "IntAE_insert_at ae (nelt ae) (item_value it)"
  let ?pre1 = "pre @ item_text it @ [c]"
  have itf: "item_fits it" and items: "list_all item_fits items"
    using Cons.prems(1) by simp_all
  have it: "item_ok it" "in_int_range (item_value it)"
    using itf by (simp_all add: item_fits_def)
  have gs: "good_sep c" using Cons.prems(2) by simp
  then have c: "\<not> isdigit c" "\<not> isblank c" "c \<noteq> NUL"
    by (simp_all add: good_sep_def valid_sep_def)
  have ends: "item_ends it (c # items_text c items @ rest)"
    using c by (simp add: item_ends_def)
  have str: "?str = pre @ item_text it @ (c # items_text c items @ rest)" by simp
  have step: "explode_loop ?str c (length pre) ae =
      explode_loop ?str c (length pre + length (item_text it) + 1) ?ae1"
    unfolding str using it c ends
    by (subst explode_loop_token) simp_all
  have ok1: "IntAE_ok ?ae1" using Cons.prems(3) by (rule IntAE_append_ok)
  obtain ae' where ae': "IntAE_ok ae'"
      "IntAE_asINTEGER ae' = IntAE_asINTEGER ?ae1 @ map item_value items"
      "explode_loop (?pre1 @ items_text c items @ rest) c (length ?pre1) ?ae1 =
       explode_loop (?pre1 @ items_text c items @ rest) c
         (length ?pre1 + length (items_text c items)) ae'"
    using Cons.IH [OF items _ ok1, of ?pre1] gs by blast
  have str1: "?pre1 @ items_text c items @ rest = ?str" by simp
  have "explode_loop ?str c (length pre) ae =
        explode_loop ?str c (length pre + length (items_text c (it # items))) ae'"
    using step ae'(3) unfolding str1 by (simp add: add.assoc)
  moreover have "IntAE_asINTEGER ae' = IntAE_asINTEGER ae @ map item_value (it # items)"
    using ae'(2) IntAE_append_contents [OF Cons.prems(3)] by simp
  ultimately show ?case using ae'(1) by blast
qed

lemma parse_items_then:
  assumes "items_fit c items" "IntAE_ok ae"
  shows "\<exists>ae'. IntAE_ok ae' \<and> IntAE_asINTEGER ae' = map item_value items \<and>
     explode_string_as_integer_vector ae (CHARSXP (items_text c items @ rest)) c =
     explode_loop (items_text c items @ rest) c (length (items_text c items)) ae'"
  using explode_loop_items [OF _ _ IntAE_reset_ok [OF assms(2)], of items c "[]" rest] assms(1)
  by (simp add: explode_string_as_integer_vector_def IntAE_reset_contents items_fit_def)

lemma explode_loop_contents:
  "IntAE_ok ae \<Longrightarrow> IntAE_ok ae' \<Longrightarrow> IntAE_asINTEGER ae = IntAE_asINTEGER ae' \<Longrightarrow>
   fst (explode_loop str sep0 offset ae) = fst (explode_loop str sep0 offset ae')"
proof (induction str sep0 offset ae arbitrary: ae' rule: explode_loop.induct)
  case (1 str sep0 offset ae)
  note unf = explode_loop.simps [of str sep0 offset]
  show ?case
  proof (cases "char_at str offset = NUL")
    case True
    then show ?thesis using "1.prems" by (simp add: unf)
  next
    case nz: False
    show ?thesis
    proof (cases "sscanf_ld (drop offset str)")
      case None
      then show ?thesis using nz by (simp add: unf)
    next
      case (Some p)
      obtain val n where p: "p = (val, n)" by (cases p)
      define o1 where "o1 = skip_blanks str (offset + n)"
      define a1 where "a1 = IntAE_insert_at ae (nelt ae) (int_cast val)"
      define a1' where "a1' = IntAE_insert_at ae' (nelt ae') (int_cast val)"
      have ok1: "IntAE_ok a1" "IntAE_ok a1'"
        using "1.prems" by (simp_all add: a1_def a1'_def IntAE_append_ok)
      have c1: "IntAE_asINTEGER a1 = IntAE_asINTEGER a1'"
        using "1.prems" by (simp add: a1_def a1'_def IntAE_append_contents)
      show ?thesis
      proof (cases "val < INT_MIN \<or> val > INT_MAX")
        case True
        then show ?thesis using nz Some p by (simp add: unf Let_def)
      next
        case inr: False
        show ?thesis
        proof (cases "char_at str o1 \<noteq> NUL \<and> char_at str o1 = sep0")
          case True
          have t: "char_at str o1 \<noteq> NUL" "\<not> char_at str o1 \<noteq> sep0" using True by auto
          have "fst (explode_loop str sep0 (o1 + 1) a1) = fst (explode_loop str sep0 (o1 + 1) a1')"
            by (rule "1.IH" [OF nz Some p [symmetric] o1_def inr a1_def t ok1 c1])
          then show ?thesis
            using nz Some p inr t
            by (simp add: unf Let_def o1_def [symmetric] a1_def [symmetric] a1'_def [symmetric])
        next
          case False
          then show ?thesis
            using nz Some p inr c1
            by (auto simp: unf Let_def o1_def [symmetric] a1_def [symmetric] a1'_def [symmetric])
        qed
      qed
    qed
  qed
qed

lemma explode_loop_ok:
  "IntAE_ok ae \<Longrightarrow> IntAE_ok (snd (explode_loop str sep0 offset ae))"
proof (induction str sep0 offset ae rule: explode_loop.induct)
  case (1 str sep0 offset ae)
  note unf = explode_loop.simps [of str sep0 offset ae]
  show ?case
  proof (cases "char_at str offset = NUL")
    case True
    then show ?thesis using "1.prems" by (simp add: unf)
  next
    case nz: False
    show ?thesis
    proof (cases "sscanf_ld (drop offset str)")
      case None
      then show ?thesis using nz "1.prems" by (simp add: unf)
    next
      case (Some p)
      obtain val n where p: "p = (val, n)" by (cases p)
      define o1 where "o1 = skip_blanks str (offset + n)"
      define a1 where "a1 = IntAE_insert_at ae (nelt ae) (int_cast val)"
      have ok1: "IntAE_ok a1"
        using "1.prems" by (simp add: a1_def IntAE_append_ok)
      show ?thesis
      proof (cases "val < INT_MIN \<or> val > INT_MAX")
        case True
        then show ?thesis using nz Some p "1.prems" by (simp add: unf Let_def)
      next
        case inr: False
        show ?thesis
        proof (cases "char_at str o1 \<noteq> NUL \<and> char_at str o1 = sep0")
          case True
          have t: "char_at str o1 \<noteq> NUL" "\<not> char_at str o1 \<noteq> sep0" using True by auto
          have "IntAE_ok (snd (explode_loop str sep0 (o1 + 1) a1))"
            by (rule "1.IH" [OF nz Some p [symmetric] o1_def inr a1_def t ok1])
          then show ?thesis
            using nz Some p inr t
            by (simp add: unf Let_def o1_def [symmetric] a1_def [symmetric])
        next
          case False
          then show ?thesis
            using nz Some p inr ok1
            by (auto simp: unf Let_def o1_def [symmetric] a1_def [symmetric])
        qed
      qed
    qed
  qed
qed

lemma digit_char_isdigit: "d < 10 \<Longrightarrow> isdigit (digit_char d)"
  by (simp add: isdigit_def digit_char_def)

lemma digit_val_digit_char: "d < 10 \<Longrightarrow> digit_val (digit_char d) = int d"
  by (simp add: digit_val_def digit_char_def)

lemma digits_value_snoc: "digits_value (ds @ [d]) = 10 * digits_value ds + digit_val d"
  by (simp add: digits_value_def)

lemma show_nat_not_Nil: "show_nat n \<noteq> []"
  by (subst show_nat.simps) simp

lemma show_nat_digits: "list_all isdigit (show_nat n)"
proof (induction n rule: show_nat.induct)
  case (1 n)
  show ?case
  proof (cases "n < 10")
    case True
    then show ?thesis by (subst show_nat.simps) (simp add: digit_char_isdigit)
  next
    case False
    with "1" have "list_all isdigit (show_nat (n div 10))" by simp
    with False show ?thesis by (subst show_nat.simps) (simp add: digit_char_isdigit)
  qed
qed

lemma show_nat_value: "digits_value (show_nat n) = int n"
proof (induction n rule: show_nat.induct)
  case (1 n)
  show ?case
  proof (cases "n < 10")
    case True
    then show ?thesis
      by (subst show_nat.simps) (simp add: digits_value_def digit_val_digit_char)
  next
    case False
    with "1" have "digits_value (show_nat (n div 10)) = int (n div 10)" by simp
    with False show ?thesis
      by (subst show_nat.simps) (simp add: digits_value_snoc digit_val_digit_char zdiv_int zmod_int)
  qed
qed

lemma plain_item_text: "item_text (plain_item v) = show_nat v"
  by (simp add: plain_item_def item_text_def)

lemma plain_item_value: "item_value (plain_item v) = int v"
  by (simp add: plain_item_def item_value_def show_nat_value)

lemma plain_item_fits: "int v \<le> INT_MAX \<Longrightarrow> item_fits (plain_item v)"
  by (simp add: item_fits_def item_ok_def plain_item_value in_int_range_def INT_MIN_def
      is_sign_def show_nat_digits) (simp add: plain_item_def show_nat_not_Nil show_nat_digits)

lemma join_as_items:
  "vs \<noteq> [] \<Longrightarrow> join c (map show_nat vs) =
     items_text c (map plain_item (butlast vs)) @ item_text (plain_item (last vs))"
proof (induction vs rule: induct_list012)
  case 1
  then show ?case by simp
next
  case (2 v)
  then show ?case by (simp add: plain_item_text)
next
  case (3 v w vs)
  then show ?case by (simp add: plain_item_text)
qed

lemma strexplode_loop_eq:
  "length ans = length bytes \<Longrightarrow> i + todo = length bytes \<Longrightarrow>
   strexplode_loop bytes i todo ans = take i ans @ map (\<lambda>b. mkChar [b, NUL]) (drop i bytes)"
proof (induction todo arbitrary: i ans)
  case 0
  then show ?case by simp
next
  case (Suc todo)
  have i: "i < length bytes" "i < length ans" using Suc.prems by simp_all
  have "strexplode_loop bytes (i + 1) todo (ans[i := mkChar [bytes ! i, NUL]]) =
        take (i + 1) (ans[i := mkChar [bytes ! i, NUL]]) @
        map (\<lambda>b. mkChar [b, NUL]) (drop (i + 1) bytes)"
    using Suc.prems by (intro Suc.IH) simp_all
  also have "take (i + 1) (ans[i := mkChar [bytes ! i, NUL]]) = take i ans @ [mkChar [bytes ! i, NUL]]"
    using i by (simp add: take_Suc_conv_app_nth)
  also have "(take i ans @ [mkChar [bytes ! i, NUL]]) @ map (\<lambda>b. mkChar [b, NUL]) (drop (i + 1) bytes)
      = take i ans @ map (\<lambda>b. mkChar [b, NUL]) (drop i bytes)"
    using i by (simp add: Cons_nth_drop_Suc [symmetric])
  finally show ?case by simp
qed

lemma safe_strexplode_eq:
  "safe_strexplode s0 = map (\<lambda>b. CHARSXP (if b = NUL then [] else [b])) (CHAR_str s0)"
  by (simp add: safe_strexplode_def LENGTH_chr_def Let_def strexplode_loop_eq mkChar_def)

lemma takeWhile_Nil_iff: "(takeWhile P xs = []) = (xs = [] \<or> \<not> P (hd xs))"
  by (cases xs) auto

lemma scan_token_None_iff: "(scan_token s = None) = (\<not> token_at_front s)"
proof -
  define r1 where "r1 = dropWhile isspace s"
  have lhs: "(scan_token s = None) = (takeWhile isdigit (drop (sign_length r1) r1) = [])"
    by (simp add: scan_token_def Let_def r1_def)
  have rhs: "token_at_front s =
      (case r1 of [] \<Rightarrow> False
       | ch # r \<Rightarrow> isdigit ch \<or> ((ch = CHR ''+'' \<or> ch = CHR ''-'') \<and> r \<noteq> [] \<and> isdigit (hd r)))"
    by (simp add: token_at_front_def r1_def)
  show ?thesis
  proof (cases r1)
    case Nil
    then show ?thesis unfolding lhs rhs by (simp add: sign_length_def)
  next
    case (Cons ch r)
    show ?thesis
    proof (cases "ch = CHR ''+'' \<or> ch = CHR ''-''")
      case True
      then have "\<not> isdigit ch" using sign_not_isdigit by auto
      with True Cons show ?thesis
        unfolding lhs rhs by (auto simp: sign_length_def takeWhile_Nil_iff)
    next
      case False
      with Cons show ?thesis
        unfolding lhs rhs by (auto simp: sign_length_def)
    qed
  qed
qed

lemma explode_string_fresh:
  assumes "IntAE_ok ae"
  shows "fst (explode_string_as_integer_vector ae s sep0) = parse_elt s sep0"
  unfolding parse_elt_def explode_string_as_integer_vector_def
  by (rule explode_loop_contents)
     (simp_all add: IntAE_reset_ok assms new_IntAE_ok IntAE_reset_contents)

lemma explode_string_ok:
  "IntAE_ok ae \<Longrightarrow> IntAE_ok (snd (explode_string_as_integer_vector ae s sep0))"
  unfolding explode_string_as_integer_vector_def
  by (rule explode_loop_ok) (simp add: IntAE_reset_ok)

lemma strsplit_loop_Cons:
  assumes "IntAE_ok ae" "x_elt \<noteq> NA_STRING"
  shows "\<exists>ae'. IntAE_ok ae' \<and> strsplit_loop (x_elt # rest) i sep0 ae =
     (case parse_elt x_elt sep0 of
        Inl e \<Rightarrow> Inl (InListElement (i + 1) e)
      | Inr ans_elt \<Rightarrow>
          (case strsplit_loop rest (i + 1) sep0 ae' of
             Inl e \<Rightarrow> Inl e
           | Inr ans \<Rightarrow> Inr (ans_elt # ans)))"
proof -
  obtain res ae' where r: "explode_string_as_integer_vector ae x_elt sep0 = (res, ae')"
    by (cases "explode_string_as_integer_vector ae x_elt sep0")
  have "res = parse_elt x_elt sep0"
    using explode_string_fresh [OF assms(1), of x_elt sep0] r by simp
  moreover have "IntAE_ok ae'"
    using explode_string_ok [OF assms(1), of x_elt sep0] r by simp
  ultimately show ?thesis
    using r assms(2) by (intro exI [of _ ae']) (auto split: sum.splits)
qed

lemma strsplit_loop_valid_prefix:
  assumes "IntAE_ok ae" "list_all (elt_valid sep0) pre"
  shows "\<exists>ae'. IntAE_ok ae' \<and> strsplit_loop (pre @ rest) i sep0 ae =
     (case strsplit_loop rest (i + length pre) sep0 ae' of
        Inl e \<Rightarrow> Inl e
      | Inr ans \<Rightarrow> Inr (map (\<lambda>s. projr (parse_elt s sep0)) pre @ ans))"
  using assms
proof (induction pre arbitrary: i ae)
  case Nil
  then show ?case by (auto split: sum.splits)
next
  case (Cons s pre)
  have sv: "elt_valid sep0 s" and pre: "list_all (elt_valid sep0) pre"
    using Cons.prems(2) by simp_all
  have s: "s \<noteq> NA_STRING" "\<not> isl (parse_elt s sep0)"
    using sv by (simp_all add: elt_valid_def)
  obtain r where r: "parse_elt s sep0 = Inr r" using s(2) by (cases "parse_elt s sep0") auto
  obtain ae1 where ae1: "IntAE_ok ae1"
    "strsplit_loop (s # pre @ rest) i sep0 ae =
       (case strsplit_loop (pre @ rest) (i + 1) sep0 ae1 of
          Inl e \<Rightarrow> Inl e | Inr ans \<Rightarrow> Inr (r # ans))"
    using strsplit_loop_Cons [OF Cons.prems(1) s(1), of "pre @ rest" i sep0] r by auto
  obtain ae' where ae': "IntAE_ok ae'"
    "strsplit_loop (pre @ rest) (i + 1) sep0 ae1 =
       (case strsplit_loop rest (i + 1 + length pre) sep0 ae' of
          Inl e \<Rightarrow> Inl e
        | Inr ans \<Rightarrow> Inr (map (\<lambda>s. projr (parse_elt s sep0)) pre @ ans))"
    using Cons.IH [OF ae1(1) pre, of "i + 1"] by blast
  show ?case
    using ae1(2) ae' r by (intro exI [of _ ae']) (auto split: sum.splits)
qed

lemma strsplit_entry:
  "valid_sep (char_at (CHAR_str sep) 0) \<Longrightarrow>
   strsplit_as_list_of_ints x sep = strsplit_loop x 0 (char_at (CHAR_str sep) 0) (new_IntAE 0 0 0)"
  by (simp add: strsplit_as_list_of_ints_def valid_sep_def Let_def)



lemma parse_items_trailing_separator:
  assumes "items_fit c items"
  shows "parse_elt (CHARSXP (items_text c items)) c = Inr (map item_value items)"
  using parse_items_then [OF assms new_IntAE_ok, of "[]"]
  by (auto simp: parse_elt_def explode_loop_at_end)

lemma parse_items_last:
  assumes "items_fit c items" "item_fits it"
  shows "parse_elt (CHARSXP (items_text c items @ item_text it)) c =
     Inr (map item_value (items @ [it]))"
proof -
  obtain ae' where ae': "IntAE_ok ae'" "IntAE_asINTEGER ae' = map item_value items"
    "explode_string_as_integer_vector (new_IntAE 0 0 0)
       (CHARSXP (items_text c items @ item_text it)) c =
     explode_loop (items_text c items @ item_text it) c (length (items_text c items)) ae'"
    using parse_items_then [OF assms(1) new_IntAE_ok, of "item_text it"] by blast
  have "explode_loop (items_text c items @ item_text it @ []) c (length (items_text c items)) ae' =
     (Inr (IntAE_asINTEGER (IntAE_insert_at ae' (nelt ae') (item_value it))),
      IntAE_insert_at ae' (nelt ae') (item_value it))"
    using assms(2) by (subst explode_loop_token) (simp_all add: item_fits_def item_ends_def)
  then show ?thesis
    using ae' by (simp add: parse_elt_def IntAE_append_contents)
qed

lemma parse_line:
  assumes "line_fits c l"
  shows "parse_elt (CHARSXP (line_text c l)) c = Inr (line_values l)"
  using assms parse_items_last [of c "fst l" "snd l"]
  by (simp add: line_fits_def line_text_def line_values_def)

lemma parse_items_no_token:
  assumes "items_fit c items"
    and "rest \<noteq> []" "hd rest \<noteq> NUL" "\<not> token_at_front rest"
  shows "parse_elt (CHARSXP (items_text c items @ rest)) c =
     Inl (TokenExpected (length (items_text c items) + 1))"
proof -
  have "scan_token rest = None" using assms(4) by (simp add: scan_token_None_iff)
  then show ?thesis
    using parse_items_then [OF assms(1) new_IntAE_ok, of rest]
      explode_loop_no_token [OF assms(2,3)]
    by (auto simp: parse_elt_def)
qed

lemma parse_items_out_of_range:
  assumes "items_fit c items"
    and "item_ok it" "\<not> in_int_range (item_value it)" "item_ends it after"
  shows "parse_elt (CHARSXP (items_text c items @ item_text it @ after)) c =
     Inl (OutOfRange (length (items_text c items) + length (item_text it) + 1))"
  using parse_items_then [OF assms(1) new_IntAE_ok, of "item_text it @ after"]
    explode_loop_token [OF assms(2,4), of "items_text c items" c]
  using assms(3) by (auto simp: parse_elt_def)

lemma parse_items_separator_expected:
  assumes "items_fit c items" "item_fits it" "item_ends it after"
    and "after \<noteq> []" "hd after \<noteq> NUL" "hd after \<noteq> c"
  shows "parse_elt (CHARSXP (items_text c items @ item_text it @ after)) c =
     Inl (SeparatorExpected (length (items_text c items) + length (item_text it) + 1))"
  using parse_items_then [OF assms(1) new_IntAE_ok, of "item_text it @ after"]
    explode_loop_token [OF _ assms(3), of "items_text c items" c]
  using assms(2,4-6) by (auto simp: parse_elt_def item_fits_def)

lemma sign_then_blank_no_token:
  assumes "list_all isspace ws" "sg = CHR ''+'' \<or> sg = CHR ''-''" "\<not> isdigit b"
  shows "\<not> token_at_front (ws @ sg # b # rest)"
    and "hd (ws @ sg # b # rest) \<noteq> NUL"
proof -
  have nsp: "\<not> isspace sg" using assms(2) sign_not_isspace by auto
  have nd: "\<not> isdigit sg" using assms(2) sign_not_isdigit by auto
  have "dropWhile isspace (ws @ sg # b # rest) = sg # b # rest"
    using assms(1) nsp by (intro dropWhile_all_then_stop) simp_all
  then show "\<not> token_at_front (ws @ sg # b # rest)"
    using nd assms(3) by (simp add: token_at_front_def)
  show "hd (ws @ sg # b # rest) \<noteq> NUL"
  proof (cases ws)
    case Nil
    with assms(2) show ?thesis by (auto simp: NUL_def)
  next
    case (Cons w ws')
    then have "isspace w" using assms(1) by simp
    then have "w \<noteq> NUL" using NUL_class by auto
    with Cons show ?thesis by simp
  qed
qed

lemma separator_no_token:
  assumes "good_sep c" "\<not> isspace c"
  shows "\<not> token_at_front (c # rest)"
  using assms by (simp add: token_at_front_def good_sep_def valid_sep_def)

lemma strsplit_single:
  assumes "valid_sep c"
  shows "strsplit_as_list_of_ints [CHARSXP s] (CHARSXP (c # cs)) =
     (case parse_elt (CHARSXP s) c of
        Inl e \<Rightarrow> Inl (InListElement 1 e)
      | Inr r \<Rightarrow> Inr [r])"
proof -
  obtain ae' where "strsplit_loop [CHARSXP s] 0 c (new_IntAE 0 0 0) =
     (case parse_elt (CHARSXP s) c of
        Inl e \<Rightarrow> Inl (InListElement (0 + 1) e)
      | Inr ans_elt \<Rightarrow>
          (case strsplit_loop [] (0 + 1) c ae' of
             Inl e \<Rightarrow> Inl e
           | Inr ans \<Rightarrow> Inr (ans_elt # ans)))"
    using strsplit_loop_Cons [OF new_IntAE_ok, of "CHARSXP s" "[]" 0 c] by auto
  moreover have "strsplit_as_list_of_ints [CHARSXP s] (CHARSXP (c # cs)) =
        strsplit_loop [CHARSXP s] 0 c (new_IntAE 0 0 0)"
    using assms strsplit_entry [of "CHARSXP (c # cs)"] by (simp add: char_at_def)
  ultimately show ?thesis by (simp split: sum.splits)
qed

lemma strsplit_batch_error:
  assumes "char_at (CHAR_str sep) 0 = c" "valid_sep c"
    and "list_all (elt_valid c) pre" "parse_elt (CHARSXP s) c = Inl e"
  shows "strsplit_as_list_of_ints (pre @ CHARSXP s # post) sep =
     Inl (InListElement (length pre + 1) e)"
proof -
  obtain ae' where ae': "IntAE_ok ae'"
    "strsplit_loop (pre @ CHARSXP s # post) 0 c (new_IntAE 0 0 0) =
     (case strsplit_loop (CHARSXP s # post) (0 + length pre) c ae' of
        Inl e \<Rightarrow> Inl e
      | Inr ans \<Rightarrow> Inr (map (\<lambda>s. projr (parse_elt s c)) pre @ ans))"
    using strsplit_loop_valid_prefix [OF new_IntAE_ok assms(3), of "CHARSXP s # post" 0] by blast
  obtain ae'' where "strsplit_loop (CHARSXP s # post) (0 + length pre) c ae' =
     (case parse_elt (CHARSXP s) c of
        Inl e \<Rightarrow> Inl (InListElement (0 + length pre + 1) e)
      | Inr ans_elt \<Rightarrow>
          (case strsplit_loop post (0 + length pre + 1) c ae'' of
             Inl e \<Rightarrow> Inl e
           | Inr ans \<Rightarrow> Inr (ans_elt # ans)))"
    using strsplit_loop_Cons [OF ae'(1), of "CHARSXP s" post "0 + length pre" c] by auto
  then show ?thesis
    using ae'(2) assms(1,2,4) strsplit_entry [of sep "pre @ CHARSXP s # post"] by simp
qed

lemma strsplit_batch_valid:
  assumes "char_at (CHAR_str sep) 0 = c" "valid_sep c" "list_all (elt_valid c) x"
  shows "strsplit_as_list_of_ints x sep = Inr (map (\<lambda>s. projr (parse_elt s c)) x)"
proof -
  obtain ae' where
    "strsplit_loop (x @ []) 0 c (new_IntAE 0 0 0) =
     (case strsplit_loop [] (0 + length x) c ae' of
        Inl e \<Rightarrow> Inl e
      | Inr ans \<Rightarrow> Inr (map (\<lambda>s. projr (parse_elt s c)) x @ ans))"
    using strsplit_loop_valid_prefix [OF new_IntAE_ok assms(3), of "[]" 0] by blast
  then show ?thesis
    using assms(1,2) strsplit_entry [of sep x] by simp
qed

lemma strsplit_batch_lines:
  assumes "char_at (CHAR_str sep) 0 = c" "valid_sep c" "list_all (line_fits c) ls"
  shows "strsplit_as_list_of_ints (map (\<lambda>l. CHARSXP (line_text c l)) ls) sep =
     Inr (map line_values ls)"
proof -
  have each: "\<forall>l \<in> set ls. parse_elt (CHARSXP (line_text c l)) c = Inr (line_values l)"
    using assms(3) by (auto simp: list_all_iff parse_line)
  then have valid: "list_all (elt_valid c) (map (\<lambda>l. CHARSXP (line_text c l)) ls)"
    by (auto simp: list_all_iff elt_valid_def)
  have "map (\<lambda>s. projr (parse_elt s c)) (map (\<lambda>l. CHARSXP (line_text c l)) ls) =
      map line_values ls"
    using each by simp
  then show ?thesis
    using strsplit_batch_valid [OF assms(1,2) valid] by simp
qed

lemma strsplit_loop_not_invalid_separator:
  "strsplit_loop x i c ae \<noteq> Inl InvalidSeparator"
  by (induction x arbitrary: i ae) (auto split: sum.splits prod.splits)

section \<open>Every string has a shape\<close>

text \<open>
  A string with a token at its front starts with an item. So a string without a zero
  byte is, for an accepted separator, a list of items that fit, each followed by the
  separator, and then: nothing; or a rest with no token at its front; or an item, with an
  end behind it or a character that is not the separator, or with a value out of range.
  In each case the parse of the string is known: these are all the ways a parse goes.
\<close>

lemma hd_dropWhile_not: "dropWhile P xs \<noteq> [] \<Longrightarrow> \<not> P (hd (dropWhile P xs))"
  by (metis hd_dropWhile)

lemma token_at_front_item:
  assumes "token_at_front s"
  shows "\<exists>it after. item_ok it \<and> item_ends it after \<and> s = item_text it @ after"
proof -
  define ws where "ws = takeWhile isspace s"
  define r1 where "r1 = dropWhile isspace s"
  have s: "s = ws @ r1" by (simp add: ws_def r1_def)
  have ws: "list_all isspace ws"
    by (auto simp: ws_def list_all_iff dest: set_takeWhileD)
  have tf: "case r1 of [] \<Rightarrow> False
      | ch # r \<Rightarrow> isdigit ch \<or> ((ch = CHR ''+'' \<or> ch = CHR ''-'') \<and> r \<noteq> [] \<and> isdigit (hd r))"
    using assms by (simp add: token_at_front_def r1_def)
  obtain ch r where r1: "r1 = ch # r"
    and tok: "isdigit ch \<or> ((ch = CHR ''+'' \<or> ch = CHR ''-'') \<and> r \<noteq> [] \<and> isdigit (hd r))"
    using tf by (cases r1) auto
  define sg where "sg = (if isdigit ch then [] else [ch])"
  define r2 where "r2 = (if isdigit ch then r1 else r)"
  have r1': "r1 = sg @ r2" by (simp add: sg_def r2_def r1)
  have sg: "is_sign sg" using tok by (auto simp: sg_def is_sign_def)
  have r2: "r2 \<noteq> []" "isdigit (hd r2)" using tok by (auto simp: r2_def r1)
  define ds where "ds = takeWhile isdigit r2"
  define r3 where "r3 = dropWhile isdigit r2"
  have ds: "ds \<noteq> []" "list_all isdigit ds"
    using r2 by (auto simp: ds_def list_all_iff takeWhile_Nil_iff dest: set_takeWhileD)
  define bl where "bl = takeWhile isblank r3"
  define after where "after = dropWhile isblank r3"
  have bl: "list_all isblank bl"
    by (auto simp: bl_def list_all_iff dest: set_takeWhileD)
  have r3: "r3 = bl @ after" by (simp add: bl_def after_def)
  have r2': "r2 = ds @ r3" by (simp add: ds_def r3_def)
  have nb: "after = [] \<or> \<not> isblank (hd after)"
    unfolding after_def using hd_dropWhile_not [of isblank r3] by blast
  have nd: "bl \<noteq> [] \<or> after = [] \<or> \<not> isdigit (hd after)"
  proof (cases "bl = []")
    case True
    then have "after = r3" using r3 by simp
    then show ?thesis
      unfolding r3_def using hd_dropWhile_not [of isdigit r2] by auto
  qed simp
  let ?it = "Item ws sg ds bl"
  have "item_ok ?it" using ws sg ds bl by (simp add: item_ok_def)
  moreover have "item_ends ?it after" using nb nd by (auto simp: item_ends_def)
  moreover have "s = item_text ?it @ after"
    using s r1' r2' r3 by (simp add: item_text_def)
  ultimately show ?thesis by blast
qed

lemma string_shape:
  assumes "valid_sep c" "NUL \<notin> set s"
  shows "\<exists>items. items_fit c items \<and>
     (s = items_text c items
      \<or> (\<exists>rest. s = items_text c items @ rest \<and> rest \<noteq> [] \<and> hd rest \<noteq> NUL \<and>
            \<not> token_at_front rest)
      \<or> (\<exists>it after. s = items_text c items @ item_text it @ after \<and> item_ok it \<and>
            item_ends it after \<and>
            (\<not> in_int_range (item_value it) \<or> after = [] \<or> (hd after \<noteq> NUL \<and> hd after \<noteq> c))))"
  using assms(2)
proof (induction s rule: length_induct)
  case (1 s)
  show ?case
  proof (cases "s = []")
    case True
    then show ?thesis by (intro exI [of _ "[]"]) (simp add: items_fit_def)
  next
    case ne: False
    then have hd: "hd s \<noteq> NUL" using "1.prems" by (cases s) auto
    show ?thesis
    proof (cases "token_at_front s")
      case False
      with ne hd show ?thesis by (intro exI [of _ "[]"]) (simp add: items_fit_def)
    next
      case True
      then obtain it after where it: "item_ok it" "item_ends it after" "s = item_text it @ after"
        using token_at_front_item by blast
      show ?thesis
      proof (cases "\<not> in_int_range (item_value it) \<or> after = [] \<or> hd after \<noteq> c")
        case True
        have "after = [] \<or> hd after \<noteq> NUL"
          using "1.prems" it(3) by (cases after) auto
        with True it show ?thesis
          by (intro exI [of _ "[]"]) (auto simp: items_fit_def)
      next
        case False
        then obtain s' where after: "after = c # s'" and fits: "item_fits it"
          using it(1) by (cases after) (auto simp: item_fits_def)
        have "\<not> isblank c" using it(2) after by (simp add: item_ends_def)
        moreover have "c \<noteq> NUL" using "1.prems" it(3) after by auto
        ultimately have gs: "good_sep c" using assms(1) by (simp add: good_sep_def)
        have "length s' < length s" using it(3) after by simp
        moreover have "NUL \<notin> set s'" using "1.prems" it(3) after by auto
        ultimately obtain items where items: "items_fit c items"
          "s' = items_text c items
           \<or> (\<exists>rest. s' = items_text c items @ rest \<and> rest \<noteq> [] \<and> hd rest \<noteq> NUL \<and>
                 \<not> token_at_front rest)
           \<or> (\<exists>it after. s' = items_text c items @ item_text it @ after \<and> item_ok it \<and>
                 item_ends it after \<and>
                 (\<not> in_int_range (item_value it) \<or> after = [] \<or>
                  (hd after \<noteq> NUL \<and> hd after \<noteq> c)))"
          using "1.IH" by blast
        have fit: "items_fit c (it # items)"
          using fits gs items(1) by (simp add: items_fit_def)
        have s: "s = item_text it @ c # s'" using it(3) after by simp
        show ?thesis
          using items(2) fit unfolding s
          by (intro exI [of _ "it # items"]) auto
      qed
    qed
  qed
qed


lemma parse_elt_cases:
  assumes "valid_sep c" "NUL \<notin> set s"
  shows "\<exists>items. items_fit c items \<and>
     ((s = items_text c items \<and> parse_elt (CHARSXP s) c = Inr (map item_value items))
      \<or> (\<exists>rest. s = items_text c items @ rest \<and> rest \<noteq> [] \<and> \<not> token_at_front rest \<and>
            parse_elt (CHARSXP s) c = Inl (TokenExpected (length (items_text c items) + 1)))
      \<or> (\<exists>it after. s = items_text c items @ item_text it @ after \<and> item_ok it \<and>
            item_ends it after \<and>
            ((\<not> in_int_range (item_value it) \<and>
              parse_elt (CHARSXP s) c =
                Inl (OutOfRange (length (items_text c items) + length (item_text it) + 1)))
             \<or> (item_fits it \<and> after = [] \<and>
                 parse_elt (CHARSXP s) c = Inr (map item_value (items @ [it])))
             \<or> (item_fits it \<and> after \<noteq> [] \<and> hd after \<noteq> c \<and>
                 parse_elt (CHARSXP s) c =
                   Inl (SeparatorExpected
                     (length (items_text c items) + length (item_text it) + 1))))))"
proof -
  obtain items where fit: "items_fit c items" and shape:
    "s = items_text c items
      \<or> (\<exists>rest. s = items_text c items @ rest \<and> rest \<noteq> [] \<and> hd rest \<noteq> NUL \<and>
            \<not> token_at_front rest)
      \<or> (\<exists>it after. s = items_text c items @ item_text it @ after \<and> item_ok it \<and>
            item_ends it after \<and>
            (\<not> in_int_range (item_value it) \<or> after = [] \<or> (hd after \<noteq> NUL \<and> hd after \<noteq> c)))"
    using string_shape [OF assms] by blast
  from shape consider
      (ends) "s = items_text c items"
    | (no_token) rest where "s = items_text c items @ rest" "rest \<noteq> []" "hd rest \<noteq> NUL"
        "\<not> token_at_front rest"
    | (token) it after where "s = items_text c items @ item_text it @ after" "item_ok it"
        "item_ends it after"
        "\<not> in_int_range (item_value it) \<or> after = [] \<or> (hd after \<noteq> NUL \<and> hd after \<noteq> c)"
    by blast
  then show ?thesis
  proof cases
    case ends
    then show ?thesis
      using fit parse_items_trailing_separator [OF fit] by (intro exI [of _ items]) simp
  next
    case no_token
    then show ?thesis
      using fit parse_items_no_token [OF fit no_token(2-4)] by (intro exI [of _ items]) auto
  next
    case token
    show ?thesis
    proof (cases "in_int_range (item_value it)")
      case False
      then show ?thesis
        using fit token(1-3) parse_items_out_of_range [OF fit token(2) False token(3)]
        by (intro exI [of _ items]) auto
    next
      case True
      then have fits: "item_fits it" using token(2) by (simp add: item_fits_def)
      show ?thesis
      proof (cases "after = []")
        case True
        then show ?thesis
          using fit fits token(1-3) parse_items_last [OF fit fits]
          by (intro exI [of _ items]) auto
      next
        case False
        then have "hd after \<noteq> NUL" "hd after \<noteq> c"
          using token(4) \<open>in_int_range (item_value it)\<close> by auto
        then show ?thesis
          using fit fits token(1-3) False
            parse_items_separator_expected [OF fit fits token(3) False]
          by (intro exI [of _ items]) auto
      qed
    qed
  qed
qed

section \<open>Round trip\<close>

text \<open>
  With a good separator, the decimal representations of non-negative 32-bit integers,
  joined by the separator, parse back to the integers.
\<close>

lemma round_trip_good_separator:
  assumes "vs \<noteq> []" "list_all (\<lambda>v. int v \<le> INT_MAX) vs" "good_sep c"
  shows "strsplit_as_list_of_ints [CHARSXP (join c (map show_nat vs))] (CHARSXP [c]) =
     Inr [map int vs]"
proof -
  have fits: "list_all item_fits (map plain_item (butlast vs))"
    using assms(2) by (auto simp: list_all_iff plain_item_fits dest: in_set_butlastD)
  have last: "item_fits (plain_item (last vs))"
    using assms(1,2) by (auto simp: list_all_iff plain_item_fits)
  have "parse_elt (CHARSXP (join c (map show_nat vs))) c =
      Inr (map item_value (map plain_item (butlast vs) @ [plain_item (last vs)]))"
    unfolding join_as_items [OF assms(1)]
    using fits assms(3) last by (intro parse_items_last) (simp_all add: items_fit_def)
  also have "map item_value (map plain_item (butlast vs) @ [plain_item (last vs)]) =
      map int (butlast vs @ [last vs])"
    by (simp add: plain_item_value)
  also have "butlast vs @ [last vs] = vs" using assms(1) by simp
  finally show ?thesis
    using assms(3) by (simp add: strsplit_single good_sep_def)
qed

section \<open>The claims\<close>

text \<open>
  Claim C1 (round trip for every separator that is not a digit, \<open>+\<close> or \<open>-\<close>). The
  entry point accepts a blank as separator, but the loop skips the blanks behind a token
  before it looks for the separator: joining 1 and 2 with a space gives \<open>1 2\<close>, and
  parsing it with the space as separator stops with "separator expected at char 3"
  instead of returning 1, 2. (For the separators that are neither a blank nor the
  terminator the round trip holds: \<open>round_trip_good_separator\<close>.)
\<close>

theorem C1_blank_separator_breaks_round_trip:
  "strsplit_as_list_of_ints [CHARSXP (join (CHR '' '') (map show_nat [1, 2]))] (CHARSXP '' '')
     = Inl (InListElement 1 (SeparatorExpected 3))"
  by code_simp

text \<open>
  Claim C2: parsing \<open>10.5\<close> with separator \<open>,\<close> fails with "separator expected" at
  character 3, and parsing \<open>abc\<close> fails with "decimal integer expected" at character 1.
\<close>

theorem C2_strict_rejection:
  "strsplit_as_list_of_ints [CHARSXP ''10.5''] (CHARSXP '','')
     = Inl (InListElement 1 (SeparatorExpected 3)) \<and>
   strsplit_as_list_of_ints [CHARSXP ''abc''] (CHARSXP '','')
     = Inl (InListElement 1 (TokenExpected 1))"
  by code_simp

text \<open>
  Claim C3, as stated, puts the reported position immediately behind the token. The
  blanks behind the token are skipped before the range is checked: for \<open>2147483648\<close>
  followed by one space the position is 12, not 11.
\<close>

theorem C3_offset_counterexample:
  "strsplit_as_list_of_ints [CHARSXP ''2147483648 ''] (CHARSXP '','')
     = Inl (InListElement 1 (OutOfRange 12)) \<and>
   strsplit_as_list_of_ints [CHARSXP ''2147483648 ''] (CHARSXP '','')
     \<noteq> Inl (InListElement 1 (OutOfRange (length ''2147483648'' + 1)))"
  by code_simp

text \<open>
  Claim C3, amended: the tokens that the parse of a string reaches are its first token
  and every token behind items that fit, each followed by the separator (which is then
  a good one: a blank or the terminator is never consumed as separator); there are no
  others, by \<open>parse_elt_cases\<close>. For every
  accepted separator and every such token whose value lies outside the range of a 32-bit
  signed integer, the call fails with "out of range integer", at the 1-based position
  behind the token and the blanks that follow it. The token is taken with all its
  digits and all the blanks behind it; anything may follow them. The string may stand
  anywhere in the batch behind elements that parse, whatever the elements behind it.
  The value is the mathematical one, however many digits the token has. In particular
  \<open>2147483648\<close> fails, at position 11, and \<open>2147483647\<close> parses to 2147483647.
\<close>

theorem C3_out_of_range_after_blanks:
  assumes "char_at (CHAR_str sep) 0 = c" "valid_sep c"
    and "list_all (elt_valid c) pre"
    and "items_fit c items"
    and "item_ok it" "\<not> in_int_range (item_value it)" "item_ends it after"
  shows "strsplit_as_list_of_ints
       (pre @ CHARSXP (items_text c items @ item_text it @ after) # post) sep
     = Inl (InListElement (length pre + 1)
         (OutOfRange (length (items_text c items) + length (item_text it) + 1))) \<and>
   strsplit_as_list_of_ints [CHARSXP ''2147483648''] (CHARSXP '','')
     = Inl (InListElement 1 (OutOfRange 11)) \<and>
   strsplit_as_list_of_ints [CHARSXP ''2147483647''] (CHARSXP '','') = Inr [[2147483647]]"
proof -
  have "strsplit_as_list_of_ints [CHARSXP ''2147483648''] (CHARSXP '','')
     = Inl (InListElement 1 (OutOfRange 11))"
    by code_simp
  moreover have "strsplit_as_list_of_ints [CHARSXP ''2147483647''] (CHARSXP '','')
     = Inr [[2147483647]]"
    by code_simp
  ultimately show ?thesis
    using strsplit_batch_error [OF assms(1-3) parse_items_out_of_range [OF assms(4-7)]]
    by simp
qed

text \<open>
  The theorem at the second element \<open>1,2147483648 ,5\<close> of a batch of three, where the
  position is that of the second comma, and at \<open>2147483648 5\<close> with a space as
  separator.
\<close>

theorem C3_out_of_range_after_blanks_witness:
  "valid_sep CHR '','' \<and> list_all (elt_valid CHR '','') [CHARSXP ''7''] \<and>
   items_fit CHR '','' [Item [] [] ''1'' []] \<and>
   item_ok (Item [] [] ''2147483648'' '' '') \<and>
   \<not> in_int_range (item_value (Item [] [] ''2147483648'' '' '')) \<and>
   item_ends (Item [] [] ''2147483648'' '' '') '',5'' \<and>
   strsplit_as_list_of_ints [CHARSXP ''7'', CHARSXP ''1,2147483648 ,5'', CHARSXP ''x'']
     (CHARSXP '','') = Inl (InListElement 2 (OutOfRange 14)) \<and>
   valid_sep CHR '' '' \<and> items_fit CHR '' '' [] \<and>
   item_ends (Item [] [] ''2147483648'' '' '') ''5'' \<and>
   strsplit_as_list_of_ints [CHARSXP ''2147483648 5''] (CHARSXP '' '')
     = Inl (InListElement 1 (OutOfRange 12))"
proof -
  have s1: "char_at (CHAR_str (CHARSXP '','')) 0 = CHR '',''" by (simp add: char_at_def)
  have s2: "char_at (CHAR_str (CHARSXP '' '')) 0 = CHR '' ''" by (simp add: char_at_def)
  have h1: "valid_sep CHR '',''" by code_simp
  have h2: "list_all (elt_valid CHR '','') [CHARSXP ''7'']" by code_simp
  have h3: "items_fit CHR '','' [Item [] [] ''1'' []]" by code_simp
  have h4: "item_ok (Item [] [] ''2147483648'' '' '')" by code_simp
  have h5: "\<not> in_int_range (item_value (Item [] [] ''2147483648'' '' ''))" by code_simp
  have h6: "item_ends (Item [] [] ''2147483648'' '' '') '',5''" by code_simp
  have k1: "valid_sep CHR '' ''" by code_simp
  have k2: "list_all (elt_valid CHR '' '') []" by simp
  have k3: "items_fit CHR '' '' []" by code_simp
  have k6: "item_ends (Item [] [] ''2147483648'' '' '') ''5''" by code_simp
  show ?thesis
    using C3_out_of_range_after_blanks [OF s1 h1 h2 h3 h4 h5 h6, where post = "[CHARSXP ''x'']"]
      C3_out_of_range_after_blanks [OF s2 k1 k2 k3 h4 h5 k6, where post = "[]"]
      h1 h2 h3 h4 h5 h6 k1 k3 k6
    by (simp add: item_text_def)
qed

text \<open>
  Claim C4: when the separator is a decimal digit, \<open>+\<close> or \<open>-\<close>, the call fails with
  the invalid-separator error whatever the batch holds (missing values and malformed
  strings included): no element is looked at.
\<close>

theorem C4_invalid_separator:
  assumes "isdigit c \<or> c = CHR ''+'' \<or> c = CHR ''-''"
  shows "strsplit_as_list_of_ints x (CHARSXP (c # cs)) = Inl InvalidSeparator"
  using assms by (simp add: strsplit_as_list_of_ints_def char_at_def)

theorem C4_invalid_separator_witness:
  "(isdigit CHR ''5'' \<or> CHR ''5'' = CHR ''+'' \<or> CHR ''5'' = CHR ''-'') \<and>
   strsplit_as_list_of_ints [NA_STRING, CHARSXP ''abc''] (CHARSXP ''5'') = Inl InvalidSeparator"
proof -
  have h: "isdigit CHR ''5'' \<or> CHR ''5'' = CHR ''+'' \<or> CHR ''5'' = CHR ''-''"
    by (simp add: isdigit_def)
  show ?thesis
    using C4_invalid_separator [OF h, of "[NA_STRING, CHARSXP ''abc'']" "[]"] h by simp
qed

text \<open>
  Claim C5, as stated, has the parse fail at a separator that ends the string and at the
  start of an empty string. Both succeed: the loop ends when it reads the terminator
  where a token would start.
\<close>

theorem C5_trailing_separator_counterexample:
  "strsplit_as_list_of_ints [CHARSXP ''1,''] (CHARSXP '','') = Inr [[1]] \<and>
   strsplit_as_list_of_ints [CHARSXP []] (CHARSXP '','') = Inr [[]]"
  by code_simp

text \<open>
  Claim C5, amended: a token is required at the start of a string and behind every
  consumed separator, that is behind items that fit, each followed by the separator
  (which is then a good one: a blank or the terminator is never consumed as separator).
  For every accepted separator, when the string goes on at such a position and no token
  is at the front of the rest, the call fails with "decimal integer expected" at that
  position; the string may stand anywhere in the batch behind elements that parse. A
  second separator at such a position is a case of this when the separator is not a
  white-space character (white space is skipped in front of a token). A string that ends
  at such a position, the empty string or a string that ends with a separator, parses to
  the values in front.
\<close>

theorem C5_empty_token_rejected:
  assumes "char_at (CHAR_str sep) 0 = c" "valid_sep c"
    and "list_all (elt_valid c) pre"
    and "items_fit c items"
    and "rest \<noteq> []" "hd rest \<noteq> NUL" "\<not> token_at_front rest"
  shows "strsplit_as_list_of_ints (pre @ CHARSXP (items_text c items @ rest) # post) sep
     = Inl (InListElement (length pre + 1) (TokenExpected (length (items_text c items) + 1))) \<and>
   (good_sep c \<and> \<not> isspace c \<longrightarrow>
    strsplit_as_list_of_ints (pre @ CHARSXP (items_text c items @ c # tail_b) # post) sep
     = Inl (InListElement (length pre + 1) (TokenExpected (length (items_text c items) + 1)))) \<and>
   strsplit_as_list_of_ints (pre @ [CHARSXP (items_text c items)]) sep
     = Inr (map (\<lambda>s. projr (parse_elt s c)) pre @ [map item_value items])"
proof -
  have one: "strsplit_as_list_of_ints (pre @ CHARSXP (items_text c items @ rest) # post) sep
     = Inl (InListElement (length pre + 1) (TokenExpected (length (items_text c items) + 1)))"
    by (rule strsplit_batch_error [OF assms(1-3) parse_items_no_token [OF assms(4-7)]])
  have two: "strsplit_as_list_of_ints (pre @ CHARSXP (items_text c items @ c # tail_b) # post) sep
     = Inl (InListElement (length pre + 1) (TokenExpected (length (items_text c items) + 1)))"
    if c: "good_sep c" "\<not> isspace c"
  proof -
    have "c # tail_b \<noteq> []" "hd (c # tail_b) \<noteq> NUL"
      using c(1) by (simp_all add: good_sep_def)
    moreover have "\<not> token_at_front (c # tail_b)"
      using c by (rule separator_no_token)
    ultimately show ?thesis
      by (intro strsplit_batch_error [OF assms(1-3)] parse_items_no_token [OF assms(4)])
  qed
  have e: "parse_elt (CHARSXP (items_text c items)) c = Inr (map item_value items)"
    using assms(4) by (rule parse_items_trailing_separator)
  then have "list_all (elt_valid c) (pre @ [CHARSXP (items_text c items)])"
    using assms(3) by (simp add: elt_valid_def)
  then have three: "strsplit_as_list_of_ints (pre @ [CHARSXP (items_text c items)]) sep
     = Inr (map (\<lambda>s. projr (parse_elt s c)) pre @ [map item_value items])"
    using strsplit_batch_valid [OF assms(1,2), of "pre @ [CHARSXP (items_text c items)]"] e
    by simp
  show ?thesis using one two three by blast
qed

text \<open>
  The theorem at \<open>1,,2\<close> and \<open>1,\<close>, each behind the element \<open>7\<close>, and at
  \<open>,1\<close>.
\<close>

theorem C5_empty_token_rejected_witness:
  "valid_sep CHR '','' \<and> list_all (elt_valid CHR '','') [CHARSXP ''7''] \<and>
   items_fit CHR '','' [Item [] [] ''1'' []] \<and> \<not> token_at_front '',2'' \<and>
   good_sep CHR '','' \<and> \<not> isspace CHR '','' \<and>
   strsplit_as_list_of_ints [CHARSXP ''7'', CHARSXP ''1,,2'', CHARSXP ''x''] (CHARSXP '','')
     = Inl (InListElement 2 (TokenExpected 3)) \<and>
   strsplit_as_list_of_ints [CHARSXP ''7'', CHARSXP ''1,''] (CHARSXP '','') = Inr [[7], [1]] \<and>
   items_fit CHR '','' [] \<and> \<not> token_at_front '',1'' \<and>
   strsplit_as_list_of_ints [CHARSXP '',1''] (CHARSXP '','')
     = Inl (InListElement 1 (TokenExpected 1))"
proof -
  have s1: "char_at (CHAR_str (CHARSXP '','')) 0 = CHR '',''" by (simp add: char_at_def)
  have h1: "valid_sep CHR '',''" by code_simp
  have h2: "list_all (elt_valid CHR '','') [CHARSXP ''7'']" by code_simp
  have h3: "items_fit CHR '','' [Item [] [] ''1'' []]" by code_simp
  have h4: "'',2'' \<noteq> []" by simp
  have h5: "hd '',2'' \<noteq> NUL" by code_simp
  have h6: "\<not> token_at_front '',2''" by code_simp
  have g1: "good_sep CHR '',''" by code_simp
  have g2: "\<not> isspace CHR '',''" by code_simp
  have k2: "list_all (elt_valid CHR '','') []" by simp
  have k3: "items_fit CHR '','' []" by code_simp
  have k4: "'',1'' \<noteq> []" by simp
  have k5: "hd '',1'' \<noteq> NUL" by code_simp
  have k6: "\<not> token_at_front '',1''" by code_simp
  have v: "item_value (Item [] [] ''1'' []) = 1" by code_simp
  have w: "projr (parse_elt (CHARSXP ''7'') CHR '','') = [7]" by code_simp
  show ?thesis
    using C5_empty_token_rejected [OF s1 h1 h2 h3 h4 h5 h6,
        where tail_b = "'',2''" and post = "[CHARSXP ''x'']"]
      C5_empty_token_rejected [OF s1 h1 k2 k3 k4 k5 k6, where tail_b = "''1''" and post = "[]"]
      h1 h2 h3 h6 g1 g2 k3 k6 v w
    by (simp add: item_text_def)
qed

text \<open>
  Claim C6, as stated, has a blank in front of a token take part in the matching like
  any other character. The conversion skips it: a space in front of \<open>1\<close> is accepted,
  where the letter \<open>x\<close> is not.
\<close>

theorem C6_blank_before_token_counterexample:
  "strsplit_as_list_of_ints [CHARSXP '' 1''] (CHARSXP '','') = Inr [[1]] \<and>
   strsplit_as_list_of_ints [CHARSXP ''x1''] (CHARSXP '','')
     = Inl (InListElement 1 (TokenExpected 1))"
  by code_simp

text \<open>
  Claim C6, amended: blanks behind a token are skipped by the loop, and white space in
  front of a token by the conversion. So, with an accepted separator, a batch of lines
  (strings of items that fit, separated by the separator, which is a good one where a
  line has more than one item) parses to the values of the items, line by line, whatever
  white space leads and whatever blanks trail each token. A blank in another place is
  not skipped: where a token is required, a sign with a blank behind it makes the call
  fail with "decimal integer expected" there, and a digit behind the blanks that follow
  a token makes it fail with "separator expected" at that digit. The claim's example
  \<open>1, 2,3\<close> parses to 1, 2, 3.
\<close>

theorem C6_padding_tolerated:
  assumes "char_at (CHAR_str sep) 0 = c" "valid_sep c"
    and "list_all (line_fits c) ls"
    and "list_all (elt_valid c) pre" "items_fit c items"
    and "list_all isspace ws" "sg = CHR ''+'' \<or> sg = CHR ''-''" "isblank b"
    and "item_fits it" "trail it \<noteq> []" "isdigit d"
  shows "strsplit_as_list_of_ints (map (\<lambda>l. CHARSXP (line_text c l)) ls) sep
     = Inr (map line_values ls) \<and>
   strsplit_as_list_of_ints
       (pre @ CHARSXP (items_text c items @ ws @ sg # b # tail_a) # post) sep
     = Inl (InListElement (length pre + 1) (TokenExpected (length (items_text c items) + 1))) \<and>
   strsplit_as_list_of_ints
       (pre @ CHARSXP (items_text c items @ item_text it @ d # tail_b) # post) sep
     = Inl (InListElement (length pre + 1)
         (SeparatorExpected (length (items_text c items) + length (item_text it) + 1))) \<and>
   strsplit_as_list_of_ints [CHARSXP ''1, 2,3''] (CHARSXP '','') = Inr [[1, 2, 3]]"
proof -
  have one: "strsplit_as_list_of_ints (map (\<lambda>l. CHARSXP (line_text c l)) ls) sep
     = Inr (map line_values ls)"
    by (rule strsplit_batch_lines [OF assms(1-3)])
  have nd: "\<not> isdigit b"
    using assms(8) isblank_isspace isdigit_not_isspace by blast
  have "ws @ sg # b # tail_a \<noteq> []" by simp
  then have two: "strsplit_as_list_of_ints
       (pre @ CHARSXP (items_text c items @ ws @ sg # b # tail_a) # post) sep
     = Inl (InListElement (length pre + 1) (TokenExpected (length (items_text c items) + 1)))"
    using sign_then_blank_no_token [OF assms(6,7) nd, of tail_a]
    by (intro strsplit_batch_error [OF assms(1,2,4)] parse_items_no_token [OF assms(5)])
  have nb: "\<not> isblank d"
    using assms(11) isblank_isspace isdigit_not_isspace by blast
  have ends: "item_ends it (d # tail_b)"
    using nb assms(10) by (simp add: item_ends_def)
  have d: "d # tail_b \<noteq> []" "hd (d # tail_b) \<noteq> NUL" "hd (d # tail_b) \<noteq> c"
    using assms(2,11) NUL_class by (auto simp: valid_sep_def)
  have three: "strsplit_as_list_of_ints
       (pre @ CHARSXP (items_text c items @ item_text it @ d # tail_b) # post) sep
     = Inl (InListElement (length pre + 1)
         (SeparatorExpected (length (items_text c items) + length (item_text it) + 1)))"
    by (rule strsplit_batch_error [OF assms(1,2,4)
          parse_items_separator_expected [OF assms(5,9) ends d]])
  have four: "strsplit_as_list_of_ints [CHARSXP ''1, 2,3''] (CHARSXP '','') = Inr [[1, 2, 3]]"
    by code_simp
  show ?thesis using one two three four by blast
qed

text \<open>
  The theorem at the batch of \<open>1, 2,3\<close> and \<open>-4\<close> between blanks, and behind the
  element \<open>7\<close> at \<open>1,- 2\<close> and at \<open>1,2  3\<close>.
\<close>

theorem C6_padding_tolerated_witness:
  "valid_sep CHR '','' \<and>
   list_all (line_fits CHR '','')
     [([Item [] [] ''1'' [], Item '' '' [] ''2'' []], Item [] [] ''3'' []),
      ([], Item '' '' ''-'' ''4'' '' '')] \<and>
   list_all (elt_valid CHR '','') [CHARSXP ''7''] \<and>
   items_fit CHR '','' [Item [] [] ''1'' []] \<and>
   item_fits (Item [] [] ''2'' ''  '') \<and>
   strsplit_as_list_of_ints [CHARSXP ''1, 2,3'', CHARSXP '' -4 ''] (CHARSXP '','')
     = Inr [[1, 2, 3], [- 4]] \<and>
   strsplit_as_list_of_ints [CHARSXP ''7'', CHARSXP ''1,- 2'', CHARSXP ''x''] (CHARSXP '','')
     = Inl (InListElement 2 (TokenExpected 3)) \<and>
   strsplit_as_list_of_ints [CHARSXP ''7'', CHARSXP ''1,2  3'', CHARSXP ''x''] (CHARSXP '','')
     = Inl (InListElement 2 (SeparatorExpected 6))"
proof -
  have s1: "char_at (CHAR_str (CHARSXP '','')) 0 = CHR '',''" by (simp add: char_at_def)
  have h1: "valid_sep CHR '',''" by code_simp
  have h2: "list_all (line_fits CHR '','')
     [([Item [] [] ''1'' [], Item '' '' [] ''2'' []], Item [] [] ''3'' []),
      ([], Item '' '' ''-'' ''4'' '' '')]" by code_simp
  have h3: "list_all (elt_valid CHR '','') [CHARSXP ''7'']" by code_simp
  have h4: "items_fit CHR '','' [Item [] [] ''1'' []]" by code_simp
  have h5: "list_all isspace []" by simp
  have h6: "CHR ''-'' = CHR ''+'' \<or> CHR ''-'' = CHR ''-''" by simp
  have h7: "isblank CHR '' ''" by code_simp
  have h8: "item_fits (Item [] [] ''2'' ''  '')" by code_simp
  have h9: "trail (Item [] [] ''2'' ''  '') \<noteq> []" by simp
  have h10: "isdigit CHR ''3''" by code_simp
  have t: "map (\<lambda>l. CHARSXP (line_text CHR '','' l))
       [([Item [] [] ''1'' [], Item '' '' [] ''2'' []], Item [] [] ''3'' []),
        ([], Item '' '' ''-'' ''4'' '' '')] = [CHARSXP ''1, 2,3'', CHARSXP '' -4 '']"
    by (simp add: line_text_def item_text_def)
  have v: "map line_values
       [([Item [] [] ''1'' [], Item '' '' [] ''2'' []], Item [] [] ''3'' []),
        ([], Item '' '' ''-'' ''4'' '' '')] = [[1, 2, 3], [- 4]]"
    by code_simp
  show ?thesis
    using C6_padding_tolerated [OF s1 h1 h2 h3 h4 h5 h6 h7 h8 h9 h10,
        where tail_a = "''2''" and post = "[CHARSXP ''x'']" and tail_b = "[]"]
      h1 h2 h3 h4 h8
    unfolding t v by (simp add: item_text_def)
qed

text \<open>
  Claim C7, as stated, has the error name the element that is missing. The error is the
  same wherever the missing value stands, and its message holds no number.
\<close>

theorem C7_no_index_counterexample:
  "strsplit_as_list_of_ints [NA_STRING, CHARSXP ''1''] (CHARSXP '','') = Inl MissingInput \<and>
   strsplit_as_list_of_ints [CHARSXP ''1'', NA_STRING] (CHARSXP '','') = Inl MissingInput \<and>
   error_message MissingInput = CHR 0x27 # ''x'' @ CHR 0x27 # '' contains NAs''"
  by code_simp

text \<open>
  Claim C7, amended: when an element of the batch is the missing-value marker and the
  elements in front of it parse, the call fails with the missing-input error, before that
  element is parsed and whatever follows it; the error names no element.
\<close>

theorem C7_missing_input:
  assumes "valid_sep (char_at (CHAR_str sep) 0)"
    and "list_all (elt_valid (char_at (CHAR_str sep) 0)) pre"
  shows "strsplit_as_list_of_ints (pre @ NA_STRING # post) sep = Inl MissingInput"
proof -
  obtain ae' where
    "strsplit_loop (pre @ NA_STRING # post) 0 (char_at (CHAR_str sep) 0) (new_IntAE 0 0 0) =
     (case strsplit_loop (NA_STRING # post) (0 + length pre) (char_at (CHAR_str sep) 0) ae' of
        Inl e \<Rightarrow> Inl e
      | Inr ans \<Rightarrow> Inr (map (\<lambda>s. projr (parse_elt s (char_at (CHAR_str sep) 0))) pre @ ans))"
    using strsplit_loop_valid_prefix [OF new_IntAE_ok assms(2), of "NA_STRING # post" 0] by blast
  then show ?thesis using strsplit_entry [OF assms(1)] by simp
qed

text \<open>The theorem at a batch with the missing value in third place.\<close>

theorem C7_missing_input_witness:
  "valid_sep (char_at (CHAR_str (CHARSXP '','')) 0) \<and>
   list_all (elt_valid (char_at (CHAR_str (CHARSXP '','')) 0)) [CHARSXP ''1,2'', CHARSXP []] \<and>
   strsplit_as_list_of_ints [CHARSXP ''1,2'', CHARSXP [], NA_STRING, CHARSXP ''x'']
     (CHARSXP '','') = Inl MissingInput"
proof -
  have h1: "valid_sep (char_at (CHAR_str (CHARSXP '','')) 0)" by code_simp
  have h2: "list_all (elt_valid (char_at (CHAR_str (CHARSXP '','')) 0))
      [CHARSXP ''1,2'', CHARSXP []]" by code_simp
  show ?thesis
    using C7_missing_input [OF h1 h2, of "[CHARSXP ''x'']"] h1 h2 by simp
qed

text \<open>
  Claim C8, as stated, covers the byte 0. \<open>mkChar\<close> reads a C string, so the element
  made from a zero byte is the empty string: it is not one byte long, and the
  concatenation of the elements loses the byte.
\<close>

theorem C8_zero_byte_counterexample:
  "safe_strexplode (CHARSXP [CHR 0x00]) = [CHARSXP []] \<and>
   length (CHAR_str (hd (safe_strexplode (CHARSXP [CHR 0x00])))) \<noteq> 1 \<and>
   concat (map CHAR_str (safe_strexplode (CHARSXP [CHR 0x00]))) \<noteq> [CHR 0x00]"
  by code_simp

text \<open>
  Claim C8, amended: for every byte string \<open>s\<close> of length \<open>n\<close> without a zero byte,
  \<open>safe_strexplode\<close> returns \<open>n\<close> elements, the element at each position the one-byte
  string of the byte of \<open>s\<close> there, and their concatenation is \<open>s\<close>; this holds for
  the byte values 1 to 255.
\<close>

theorem C8_explode_non_zero_bytes:
  assumes "NUL \<notin> set s"
  shows "length (safe_strexplode (CHARSXP s)) = length s \<and>
   safe_strexplode (CHARSXP s) = map (\<lambda>b. CHARSXP [b]) s \<and>
   concat (map CHAR_str (safe_strexplode (CHARSXP s))) = s"
proof -
  have eq: "safe_strexplode (CHARSXP s) = map (\<lambda>b. CHARSXP [b]) s"
    using assms by (auto simp: safe_strexplode_eq)
  have "concat (map CHAR_str (map (\<lambda>b. CHARSXP [b]) s)) = s"
    by (induction s) simp_all
  with eq show ?thesis by simp
qed

text \<open>The theorem at three bytes: a control byte, a letter and the byte 255.\<close>

theorem C8_explode_non_zero_bytes_witness:
  "NUL \<notin> set [CHR 0x01, CHR ''a'', CHR 0xFF] \<and>
   safe_strexplode (CHARSXP [CHR 0x01, CHR ''a'', CHR 0xFF])
     = [CHARSXP [CHR 0x01], CHARSXP ''a'', CHARSXP [CHR 0xFF]]"
proof -
  have h: "NUL \<notin> set [CHR 0x01, CHR ''a'', CHR 0xFF]" by (simp add: NUL_def)
  show ?thesis using C8_explode_non_zero_bytes [OF h] h by simp
qed

text \<open>
  Claim C9: for a batch whose elements all parse, the call returns, in the order of the
  batch, for each element the integers it parses to on its own with a buffer of its own:
  no value of one element shows in another's result. The parse of an element does not
  depend on what the shared buffer holds when it starts, since its length is set to 0
  first.
\<close>

theorem C9_no_leak_between_elements:
  assumes "valid_sep (char_at (CHAR_str sep) 0)"
    and "list_all (elt_valid (char_at (CHAR_str sep) 0)) x"
    and "IntAE_ok ae"
  shows "strsplit_as_list_of_ints x sep =
       Inr (map (\<lambda>s. projr (parse_elt s (char_at (CHAR_str sep) 0))) x) \<and>
     fst (explode_string_as_integer_vector ae s (char_at (CHAR_str sep) 0))
       = parse_elt s (char_at (CHAR_str sep) 0)"
proof -
  obtain ae' where
    "strsplit_loop (x @ []) 0 (char_at (CHAR_str sep) 0) (new_IntAE 0 0 0) =
     (case strsplit_loop [] (0 + length x) (char_at (CHAR_str sep) 0) ae' of
        Inl e \<Rightarrow> Inl e
      | Inr ans \<Rightarrow> Inr (map (\<lambda>s. projr (parse_elt s (char_at (CHAR_str sep) 0))) x @ ans))"
    using strsplit_loop_valid_prefix [OF new_IntAE_ok assms(2), of "[]" 0] by blast
  then show ?thesis
    using strsplit_entry [OF assms(1)] explode_string_fresh [OF assms(3)] by simp
qed

text \<open>
  The theorem at the claim's example, and at a buffer that still holds 7 and 8 when the
  element \<open>3\<close> is parsed.
\<close>

theorem C9_no_leak_between_elements_witness:
  "valid_sep (char_at (CHAR_str (CHARSXP '','')) 0) \<and>
   list_all (elt_valid (char_at (CHAR_str (CHARSXP '','')) 0)) [CHARSXP ''1,2'', CHARSXP ''3''] \<and>
   IntAE_ok \<lparr>buflength = 2, elts = [7, 8], nelt = 2\<rparr> \<and>
   strsplit_as_list_of_ints [CHARSXP ''1,2'', CHARSXP ''3''] (CHARSXP '','') = Inr [[1, 2], [3]] \<and>
   fst (explode_string_as_integer_vector \<lparr>buflength = 2, elts = [7, 8], nelt = 2\<rparr>
          (CHARSXP ''3'') CHR '','') = Inr [3]"
proof -
  have h1: "valid_sep (char_at (CHAR_str (CHARSXP '','')) 0)" by code_simp
  have h2: "list_all (elt_valid (char_at (CHAR_str (CHARSXP '','')) 0))
      [CHARSXP ''1,2'', CHARSXP ''3'']" by code_simp
  have h3: "IntAE_ok \<lparr>buflength = 2, elts = [7, 8], nelt = 2\<rparr>" by (simp add: IntAE_ok_def)
  have c: "char_at (CHAR_str (CHARSXP '','')) 0 = CHR '',''" by (simp add: char_at_def)
  have v: "map (\<lambda>s. projr (parse_elt s CHR '','')) [CHARSXP ''1,2'', CHARSXP ''3''] = [[1, 2], [3]]"
    by code_simp
  have w: "parse_elt (CHARSXP ''3'') CHR '','' = Inr [3]" by code_simp
  show ?thesis
    using C9_no_leak_between_elements [OF h1 h2 h3, of "CHARSXP ''3''"] h1 h2 h3 v w
    unfolding c by simp
qed

text \<open>
  Claim C10: a separator string of more than one character is not refused for that. Only
  its first character is read: the call gives what it gives with that character alone;
  it is refused as an invalid separator exactly when that character is a digit, \<open>+\<close>
  or \<open>-\<close>; and when it is accepted, the items of a string are delimited by that
  character (a batch of lines of items that fit, separated by it, parses to their
  values), while any other character behind an item and its blanks, a later character of
  the separator string included, makes the call fail with "separator expected" at that
  character.
\<close>

theorem C10_first_char_only:
  assumes "valid_sep c" "list_all (line_fits c) ls"
    and "list_all (elt_valid c) pre" "items_fit c items"
    and "item_fits jt" "item_ends jt (d # rest)" "d \<noteq> c" "d \<noteq> NUL"
  shows "strsplit_as_list_of_ints x (CHARSXP (c # cs)) = strsplit_as_list_of_ints x (CHARSXP [c]) \<and>
   (strsplit_as_list_of_ints y (CHARSXP (ch # cs)) = Inl InvalidSeparator)
     = (isdigit ch \<or> ch = CHR ''+'' \<or> ch = CHR ''-'') \<and>
   strsplit_as_list_of_ints (map (\<lambda>l. CHARSXP (line_text c l)) ls) (CHARSXP (c # cs))
     = Inr (map line_values ls) \<and>
   strsplit_as_list_of_ints
       (pre @ CHARSXP (items_text c items @ item_text jt @ d # rest) # post) (CHARSXP (c # cs))
     = Inl (InListElement (length pre + 1)
         (SeparatorExpected (length (items_text c items) + length (item_text jt) + 1))) \<and>
   strsplit_as_list_of_ints [CHARSXP ''1;2''] (CHARSXP '';xyz'') = Inr [[1, 2]]"
proof -
  have sep0: "char_at (CHAR_str (CHARSXP (c # cs))) 0 = c" by (simp add: char_at_def)
  have one: "strsplit_as_list_of_ints x (CHARSXP (c # cs))
      = strsplit_as_list_of_ints x (CHARSXP [c])"
    by (simp add: strsplit_as_list_of_ints_def char_at_def)
  have two: "(strsplit_as_list_of_ints y (CHARSXP (ch # cs)) = Inl InvalidSeparator)
     = (isdigit ch \<or> ch = CHR ''+'' \<or> ch = CHR ''-'')"
    using strsplit_loop_not_invalid_separator [of y 0 ch "new_IntAE 0 0 0"]
    by (simp add: strsplit_as_list_of_ints_def char_at_def)
  have three: "strsplit_as_list_of_ints (map (\<lambda>l. CHARSXP (line_text c l)) ls)
       (CHARSXP (c # cs)) = Inr (map line_values ls)"
    by (rule strsplit_batch_lines [OF sep0 assms(1,2)])
  have d: "d # rest \<noteq> []" "hd (d # rest) \<noteq> NUL" "hd (d # rest) \<noteq> c"
    using assms(7,8) by simp_all
  have four: "strsplit_as_list_of_ints
       (pre @ CHARSXP (items_text c items @ item_text jt @ d # rest) # post) (CHARSXP (c # cs))
     = Inl (InListElement (length pre + 1)
         (SeparatorExpected (length (items_text c items) + length (item_text jt) + 1)))"
    by (rule strsplit_batch_error [OF sep0 assms(1,3)
          parse_items_separator_expected [OF assms(4,5,6) d]])
  have five: "strsplit_as_list_of_ints [CHARSXP ''1;2''] (CHARSXP '';xyz'') = Inr [[1, 2]]"
    by code_simp
  show ?thesis using one two three four five by blast
qed

text \<open>
  The theorem at the separator string \<open>;x\<close>: \<open>1;2\<close> parses, \<open>1x2\<close> behind the
  element \<open>7\<close> does not, and the separator string \<open>5x\<close> is refused.
\<close>

theorem C10_first_char_only_witness:
  "valid_sep CHR '';'' \<and>
   list_all (line_fits CHR '';'') [([Item [] [] ''1'' []], Item [] [] ''2'' [])] \<and>
   list_all (elt_valid CHR '';'') [CHARSXP ''7''] \<and> items_fit CHR '';'' [] \<and>
   item_fits (Item [] [] ''1'' []) \<and> item_ends (Item [] [] ''1'' []) ''x2'' \<and>
   strsplit_as_list_of_ints [CHARSXP ''1;2'', NA_STRING] (CHARSXP '';x'')
     = strsplit_as_list_of_ints [CHARSXP ''1;2'', NA_STRING] (CHARSXP '';'') \<and>
   strsplit_as_list_of_ints [CHARSXP ''1;2''] (CHARSXP '';x'') \<noteq> Inl InvalidSeparator \<and>
   strsplit_as_list_of_ints [CHARSXP ''1;2''] (CHARSXP ''5x'') = Inl InvalidSeparator \<and>
   strsplit_as_list_of_ints [CHARSXP ''1;2''] (CHARSXP '';x'') = Inr [[1, 2]] \<and>
   strsplit_as_list_of_ints [CHARSXP ''7'', CHARSXP ''1x2''] (CHARSXP '';x'')
     = Inl (InListElement 2 (SeparatorExpected 2))"
proof -
  have h1: "valid_sep CHR '';''" by code_simp
  have h2: "list_all (line_fits CHR '';'') [([Item [] [] ''1'' []], Item [] [] ''2'' [])]"
    by code_simp
  have h3: "list_all (elt_valid CHR '';'') [CHARSXP ''7'']" by code_simp
  have h4: "items_fit CHR '';'' []" by code_simp
  have h5: "item_fits (Item [] [] ''1'' [])" by code_simp
  have h6: "item_ends (Item [] [] ''1'' []) (CHR ''x'' # ''2'')" by code_simp
  have h7: "CHR ''x'' \<noteq> CHR '';''" by simp
  have h8: "CHR ''x'' \<noteq> NUL" by (simp add: NUL_def)
  have d5: "isdigit CHR ''5''" by code_simp
  have d6: "\<not> isdigit CHR '';''" by code_simp
  have t: "map (\<lambda>l. CHARSXP (line_text CHR '';'' l)) [([Item [] [] ''1'' []], Item [] [] ''2'' [])]
      = [CHARSXP ''1;2'']"
    by (simp add: line_text_def item_text_def)
  have v: "map line_values [([Item [] [] ''1'' []], Item [] [] ''2'' [])] = [[1, 2]]"
    by code_simp
  show ?thesis
    using C10_first_char_only [OF h1 h2 h3 h4 h5 h6 h7 h8,
        where x = "[CHARSXP ''1;2'', NA_STRING]" and cs = "''x''"
          and y = "[CHARSXP ''1;2'']" and ch = "CHR '';''" and post = "[]"]
      C10_first_char_only [OF h1 h2 h3 h4 h5 h6 h7 h8,
        where x = "[]" and cs = "''x''"
          and y = "[CHARSXP ''1;2'']" and ch = "CHR ''5''" and post = "[]"]
      h1 h2 h3 h4 h5 h6 d5 d6
    unfolding t v by (simp add: item_text_def)
qed

end
